theory Spec2Isabelle
  imports Complex_Main
begin

section \<open>The LGBPHS extractor of bob.bio.face (extractor/LGBPHS.py)\<close>

text \<open>
  The extractor class \<^verbatim>\<open>LGBPHS\<close> is embedded as functions over an explicit instance
  record. Exceptions are values of the type \<open>error\<close>; a method that mutates the instance
  returns the instance it leaves behind, also when it raises. The primitives of the
  libraries (\<^verbatim>\<open>bob.ip.gabor\<close>, \<^verbatim>\<open>bob.ip.base\<close>) are parameters, collected in
  the record \<open>env\<close>. A float64 is modelled as a real and a complex128 as a complex number:
  the extractor only copies these values and compares them with zero.
\<close>

subsection \<open>Exceptions\<close>

datatype error =
    ValueError
  | AssertionError
  | IndexError
  | AttributeError
  | TypeError

subsection \<open>numpy arrays\<close>

text \<open>
  An array is its shape and its elements in row-major order. Every array that numpy
  builds has as many elements as its shape says (\<open>well_shaped\<close>).
\<close>

datatype 'a ndarray = NDArray (shape: "nat list") (data: "'a list")

definition well_shaped :: "'a ndarray \<Rightarrow> bool" where
  "well_shaped a \<longleftrightarrow> length (data a) = prod_list (shape a)"

datatype dtype = Float64 | Float32 | Int64 | UInt8 | Bool8

text \<open>An image as the caller hands it over: the array and its element type.\<close>

record image =
  pixels :: "real ndarray"
  im_dtype :: dtype

definition ndim :: "'a ndarray \<Rightarrow> nat" where
  "ndim a = length (shape a)"

text \<open>
  \<^verbatim>\<open>numpy.ndarray(shape, dtype)\<close> allocates without initialising: the elements are
  whatever the memory holds, here the function \<open>mem\<close>.
\<close>

definition np_ndarray :: "(nat \<Rightarrow> 'a) \<Rightarrow> nat list \<Rightarrow> 'a ndarray" where
  "np_ndarray mem shp = NDArray shp (map mem [0..<prod_list shp])"

text \<open>\<^verbatim>\<open>a[j]\<close> with \<open>j \<ge> 0\<close>: the \<open>j\<close>-th sub-array along the first axis.\<close>

definition np_getitem :: "'a ndarray \<Rightarrow> nat \<Rightarrow> error + 'a ndarray" where
  "np_getitem a j =
     (case shape a of
        [] \<Rightarrow> Inl IndexError
      | n # rest \<Rightarrow>
          if j < n
          then Inr (NDArray rest (take (prod_list rest) (drop (j * prod_list rest) (data a))))
          else Inl IndexError)"

definition np_abs :: "complex ndarray \<Rightarrow> real ndarray" where
  "np_abs a = NDArray (shape a) (map cmod (data a))"

definition np_angle :: "complex ndarray \<Rightarrow> real ndarray" where
  "np_angle a = NDArray (shape a) (map Arg (data a))"

text \<open>
  Assigning a 1-D value \<open>v\<close> to a target region whose last axis has length \<open>d\<close> and which
  holds \<open>len\<close> elements: numpy broadcasts, so \<open>v\<close> has length \<open>d\<close> (and is repeated
  along the leading axes) or length 1 (and is repeated everywhere); anything else is a
  ValueError.
\<close>

definition broadcast :: "'a list \<Rightarrow> nat \<Rightarrow> nat \<Rightarrow> error + 'a list" where
  "broadcast v d len =
     (if length v = d then Inr (concat (replicate (len div d) v))
      else if length v = 1 then Inr (replicate len (hd v))
      else Inl ValueError)"

text \<open>
  Writing \<open>count\<close> slots of \<open>inner\<close> elements each, from slot \<open>lo\<close> of the block of
  \<open>n\<close> slots that starts at element \<open>base\<close>. A slice is clipped to the axis, as Python
  clips it.
\<close>

definition assign_slots ::
  "'a ndarray \<Rightarrow> nat \<Rightarrow> nat \<Rightarrow> nat list \<Rightarrow> nat \<Rightarrow> nat \<Rightarrow> 'a list \<Rightarrow> error + 'a ndarray" where
  "assign_slots a base n rest lo hi v =
     (let lo' = min lo n;
          hi' = min hi n;
          count = hi' - lo';
          inner = prod_list rest;
          d = (if rest = [] then count else last rest);
          start = base + lo' * inner
      in case broadcast v d (count * inner) of
           Inl e \<Rightarrow> Inl e
         | Inr w \<Rightarrow>
             Inr (NDArray (shape a)
                    (take start (data a) @ w @ drop (start + count * inner) (data a))))"

text \<open>\<^verbatim>\<open>a[lo:hi] = v\<close> with \<open>0 \<le> lo\<close>, \<open>0 \<le> hi\<close> and a 1-D \<open>v\<close>.\<close>

definition np_setslice :: "'a ndarray \<Rightarrow> nat \<Rightarrow> nat \<Rightarrow> 'a list \<Rightarrow> error + 'a ndarray" where
  "np_setslice a lo hi v =
     (case shape a of
        [] \<Rightarrow> Inl IndexError
      | n # rest \<Rightarrow> assign_slots a 0 n rest lo hi v)"

text \<open>\<^verbatim>\<open>a[r, lo:hi] = v\<close> with \<open>0 \<le> r\<close>, \<open>0 \<le> lo\<close>, \<open>0 \<le> hi\<close> and a 1-D \<open>v\<close>.\<close>

definition np_setitem2 ::
  "'a ndarray \<Rightarrow> nat \<Rightarrow> nat \<Rightarrow> nat \<Rightarrow> 'a list \<Rightarrow> error + 'a ndarray" where
  "np_setitem2 a r lo hi v =
     (case shape a of
        rows # cols # rest \<Rightarrow>
          if r < rows
          then assign_slots a (r * (cols * prod_list rest)) cols rest lo hi v
          else Inl IndexError
      | _ \<Rightarrow> Inl IndexError)"

text \<open>\<^verbatim>\<open>a[r, c]\<close> of a 2-D array, for \<open>r\<close> and \<open>c\<close> within its shape.\<close>

definition np_item2 :: "'a ndarray \<Rightarrow> nat \<Rightarrow> nat \<Rightarrow> 'a" where
  "np_item2 a r c = data a ! (r * (shape a ! 1) + c)"

subsection \<open>The library primitives\<close>

text \<open>
  The 2-D array of histograms that \<^verbatim>\<open>bob.ip.base.lbphs\<close> returns: one row for each
  block, one column for each bin.
\<close>

record blocks =
  n_rows :: nat
  n_cols :: nat
  cell :: "nat \<Rightarrow> nat \<Rightarrow> real"

text \<open>\<^verbatim>\<open>lgbphs_blocks[b][:]\<close>: a copy of row \<open>b\<close>.\<close>

definition block_row :: "blocks \<Rightarrow> nat \<Rightarrow> error + real list" where
  "block_row bl b =
     (if b < n_rows bl then Inr (map (cell bl b) [0..<n_cols bl]) else Inl IndexError)"

record gabor_transform =
  number_of_scales :: nat
  number_of_directions :: nat
  sigma :: real
  k_max :: real
  k_fac :: real
  power_of_k :: real
  dc_free :: bool

text \<open>
  Modelled from the spec: the attribute \<^verbatim>\<open>number_of_wavelets\<close> of the library's
  \<^verbatim>\<open>bob.ip.gabor.Transform\<close> is not in the sources; the spec gives
  \<^verbatim>\<open>wavelet_count = scales * directions\<close>.
\<close>

definition number_of_wavelets :: "gabor_transform \<Rightarrow> nat" where
  "number_of_wavelets g = number_of_scales g * number_of_directions g"

record lbp_operator =
  neighbors :: nat
  radius :: real
  circular :: bool
  to_average :: bool
  add_average_bit :: bool
  uniform :: bool
  rotation_invariant :: bool
  border_handling :: string

text \<open>
  What the extractor calls and cannot see into: the Gabor wavelet transform (element
  \<open>i\<close> of the response volume of an image), the block histograms of a plane, and the
  contents of freshly allocated memory.
\<close>

record env =
  gwt_transform :: "gabor_transform \<Rightarrow> image \<Rightarrow> nat \<Rightarrow> complex"
  lbphs :: "real ndarray \<Rightarrow> lbp_operator \<Rightarrow> int list \<Rightarrow> int list \<Rightarrow> blocks"
  mem_complex :: "nat \<Rightarrow> complex"
  mem_float :: "nat \<Rightarrow> real"

subsection \<open>The instance\<close>

record extractor =
  block_size :: "int list"
  block_overlap :: "int list"
  gwt :: gabor_transform
  trafo_image :: "complex ndarray option"
  use_phases :: bool
  lbp :: lbp_operator
  split :: "string option"
  sparse :: bool
  n_bins :: "nat option"
  n_blocks :: "nat option"

subsection \<open>Construction\<close>

text \<open>A block size or overlap is an integer or a tuple or list of integers.\<close>

datatype size_arg = Single int | Seq "int list"

record config =
  block_size_arg :: size_arg
  block_overlap_arg :: size_arg
  gabor_directions :: nat
  gabor_scales :: nat
  gabor_sigma :: real
  gabor_maximum_frequency :: real
  gabor_frequency_step :: real
  gabor_power_of_k :: real
  gabor_dc_free :: bool
  use_gabor_phases :: bool
  lbp_radius :: real
  lbp_neighbor_count :: nat
  lbp_uniform :: bool
  lbp_circular :: bool
  lbp_rotation_invariant :: bool
  lbp_compare_to_average :: bool
  lbp_add_average :: bool
  sparse_histogram :: bool
  split_histogram :: "string option"

text \<open>The keyword defaults of \<^verbatim>\<open>__init__\<close>; only \<^verbatim>\<open>block_size\<close> has none.\<close>

definition defaults :: "size_arg \<Rightarrow> config" where
  "defaults bs =
     \<lparr> block_size_arg = bs,
       block_overlap_arg = Single 0,
       gabor_directions = 8,
       gabor_scales = 5,
       gabor_sigma = 2 * pi,
       gabor_maximum_frequency = pi / 2,
       gabor_frequency_step = sqrt (1 / 2),
       gabor_power_of_k = 0,
       gabor_dc_free = True,
       use_gabor_phases = False,
       lbp_radius = 2,
       lbp_neighbor_count = 8,
       lbp_uniform = True,
       lbp_circular = True,
       lbp_rotation_invariant = False,
       lbp_compare_to_average = False,
       lbp_add_average = False,
       sparse_histogram = False,
       split_histogram = None \<rparr>"

text \<open>\<^verbatim>\<open>x if isinstance(x, (tuple, list)) else (x, x)\<close>\<close>

fun as_pair :: "size_arg \<Rightarrow> int list" where
  "as_pair (Seq xs) = xs"
| "as_pair (Single v) = [v, v]"

text \<open>\<^verbatim>\<open>xs[i]\<close> on a tuple or list, \<open>i \<ge> 0\<close>.\<close>

definition item :: "'a list \<Rightarrow> nat \<Rightarrow> error + 'a" where
  "item xs i = (if i < length xs then Inr (xs ! i) else Inl IndexError)"

text \<open>
  \<^verbatim>\<open>self.block_size[i] < self.block_overlap[i]\<close>: the size is read first, then the
  overlap.
\<close>

definition overlap_exceeds :: "int list \<Rightarrow> int list \<Rightarrow> nat \<Rightarrow> error + bool" where
  "overlap_exceeds bs bo i =
     (case item bs i of
        Inl e \<Rightarrow> Inl e
      | Inr s \<Rightarrow> (case item bo i of Inl e \<Rightarrow> Inl e | Inr ov \<Rightarrow> Inr (s < ov)))"

text \<open>The truth value of \<^verbatim>\<open>self.split\<close>: None and the empty string are false.\<close>

definition truthy :: "string option \<Rightarrow> bool" where
  "truthy sp = (case sp of None \<Rightarrow> False | Some str \<Rightarrow> str \<noteq> [])"

text \<open>
  The instance once every attribute is set. The constructors of the library objects
  keep their arguments; \<^verbatim>\<open>n_bins\<close> and \<^verbatim>\<open>n_blocks\<close> do not exist before the first
  extraction.
\<close>

definition instance_of :: "config \<Rightarrow> extractor" where
  "instance_of c =
     \<lparr> block_size = as_pair (block_size_arg c),
       block_overlap = as_pair (block_overlap_arg c),
       gwt = \<lparr> number_of_scales = gabor_scales c,
               number_of_directions = gabor_directions c,
               sigma = gabor_sigma c,
               k_max = gabor_maximum_frequency c,
               k_fac = gabor_frequency_step c,
               power_of_k = gabor_power_of_k c,
               dc_free = gabor_dc_free c \<rparr>,
       trafo_image = None,
       use_phases = use_gabor_phases c,
       lbp = \<lparr> neighbors = lbp_neighbor_count c,
               radius = lbp_radius c,
               circular = lbp_circular c,
               to_average = lbp_compare_to_average c,
               add_average_bit = lbp_add_average c,
               uniform = lbp_uniform c,
               rotation_invariant = lbp_rotation_invariant c,
               border_handling = ''wrap'' \<rparr>,
       split = split_histogram c,
       sparse = sparse_histogram c,
       n_bins = None,
       n_blocks = None \<rparr>"

text \<open>
  \<^verbatim>\<open>__init__\<close>: the overlap check comes first, with Python's short-circuit \<^verbatim>\<open>or\<close>;
  the check of sparse against split comes last. The constructor of the base class, which
  \<^verbatim>\<open>__init__\<close> calls first, belongs to another package (\<^verbatim>\<open>bob.bio.base\<close>) and only records
  the parameters; like the constructors of the two library objects it is taken to return.
\<close>

definition init :: "config \<Rightarrow> error + extractor" where
  "init c =
     (let bs = as_pair (block_size_arg c);
          bo = as_pair (block_overlap_arg c)
      in case overlap_exceeds bs bo 0 of
           Inl e \<Rightarrow> Inl e
         | Inr ex0 \<Rightarrow>
             if ex0 then Inl ValueError
             else
               (case overlap_exceeds bs bo 1 of
                  Inl e \<Rightarrow> Inl e
                | Inr ex1 \<Rightarrow>
                    if ex1 then Inl ValueError
                    else if sparse_histogram c \<and> truthy (split_histogram c)
                    then Inl ValueError
                    else Inr (instance_of c)))"

subsection \<open>Filling the output array\<close>

text \<open>Reading an attribute that exists only once it has been assigned.\<close>

definition attr :: "'a option \<Rightarrow> error + 'a" where
  "attr x = (case x of None \<Rightarrow> Inl AttributeError | Some v \<Rightarrow> Inr v)"

text \<open>A \<^verbatim>\<open>for b in ...\<close> loop whose body updates the array or raises.\<close>

fun for_each ::
  "(nat \<Rightarrow> 'a ndarray \<Rightarrow> error + 'a ndarray) \<Rightarrow> nat list \<Rightarrow> 'a ndarray \<Rightarrow> error + 'a ndarray" where
  "for_each body [] a = Inr a"
| "for_each body (b # bs) a =
     (case body b a of Inl e \<Rightarrow> Inl e | Inr a' \<Rightarrow> for_each body bs a')"

text \<open>
  \<^verbatim>\<open>_fill\<close>. In each assignment Python evaluates the right-hand side first, then the
  target's index expression, then stores. A split other than the four known ones falls
  through the chain and nothing is written.
\<close>

definition fill :: "extractor \<Rightarrow> real ndarray \<Rightarrow> blocks \<Rightarrow> nat \<Rightarrow> error + real ndarray" where
  "fill s lgbphs_array lgbphs_blocks j =
     (if split s = None then
        (case attr (n_bins s) of
           Inl e \<Rightarrow> Inl e
         | Inr nb \<Rightarrow>
             (case attr (n_blocks s) of
                Inl e \<Rightarrow> Inl e
              | Inr nB \<Rightarrow>
                  (let start = j * nb * nB
                   in for_each
                        (\<lambda>b a. case block_row lgbphs_blocks b of
                                 Inl e \<Rightarrow> Inl e
                               | Inr row \<Rightarrow> np_setslice a (start + b * nb) (start + (b + 1) * nb) row)
                        [0..<nB] lgbphs_array)))
      else if split s = Some ''blocks'' then
        (case attr (n_blocks s) of
           Inl e \<Rightarrow> Inl e
         | Inr nB \<Rightarrow>
             for_each
               (\<lambda>b a. case block_row lgbphs_blocks b of
                        Inl e \<Rightarrow> Inl e
                      | Inr row \<Rightarrow>
                          (case attr (n_bins s) of
                             Inl e \<Rightarrow> Inl e
                           | Inr nb \<Rightarrow> np_setitem2 a b (j * nb) ((j + 1) * nb) row))
               [0..<nB] lgbphs_array)
      else if split s = Some ''wavelets'' then
        (case attr (n_blocks s) of
           Inl e \<Rightarrow> Inl e
         | Inr nB \<Rightarrow>
             for_each
               (\<lambda>b a. case block_row lgbphs_blocks b of
                        Inl e \<Rightarrow> Inl e
                      | Inr row \<Rightarrow>
                          (case attr (n_bins s) of
                             Inl e \<Rightarrow> Inl e
                           | Inr nb \<Rightarrow> np_setitem2 a j (b * nb) ((b + 1) * nb) row))
               [0..<nB] lgbphs_array)
      else if split s = Some ''both'' then
        (case attr (n_blocks s) of
           Inl e \<Rightarrow> Inl e
         | Inr nB \<Rightarrow>
             for_each
               (\<lambda>b a. case block_row lgbphs_blocks b of
                        Inl e \<Rightarrow> Inl e
                      | Inr row \<Rightarrow>
                          (case attr (n_bins s) of
                             Inl e \<Rightarrow> Inl e
                           | Inr nb \<Rightarrow> np_setitem2 a (j * nB + b) 0 nb row))
               [0..<nB] lgbphs_array)
      else Inr lgbphs_array)"

subsection \<open>Sparsification\<close>

text \<open>The loop of \<^verbatim>\<open>_sparsify\<close>: the two lists grow at their ends.\<close>

fun sparsify_loop :: "real list \<Rightarrow> nat list \<Rightarrow> nat list \<times> real list \<Rightarrow> nat list \<times> real list" where
  "sparsify_loop xs [] (indices, values) = (indices, values)"
| "sparsify_loop xs (i # rest) (indices, values) =
     (if xs ! i \<noteq> 0
      then sparsify_loop xs rest (indices @ [i], values @ [xs ! i])
      else sparsify_loop xs rest (indices, values))"

text \<open>
  \<^verbatim>\<open>numpy.array([indices, values], dtype = numpy.float64)\<close>: two rows of the same
  length, the indices converted to floating point.
\<close>

definition np_array2 :: "nat list \<Rightarrow> real list \<Rightarrow> real ndarray" where
  "np_array2 indices values = NDArray [2, length indices] (map real indices @ values)"

definition sparsify :: "extractor \<Rightarrow> real ndarray \<Rightarrow> error + real ndarray" where
  "sparsify s array =
     (if \<not> sparse s then Inr array
      else if length (shape array) = 2 \<and> shape array ! 0 = 2 then Inr array
      else if length (shape array) \<noteq> 1 then Inl AssertionError
      else (case sparsify_loop (data array) [0..<shape array ! 0] ([], []) of
              (indices, values) \<Rightarrow> Inr (np_array2 indices values)))"

subsection \<open>Extraction\<close>

definition jet_length :: "extractor \<Rightarrow> nat" where
  "jet_length s = number_of_wavelets (gwt s) * (if use_phases s then 2 else 1)"

text \<open>The shape of the output array, lines 167 to 176 of the source.\<close>

definition layout_shape :: "string option \<Rightarrow> nat \<Rightarrow> nat \<Rightarrow> nat \<Rightarrow> error + nat list" where
  "layout_shape sp nB nb J =
     (if sp = None then Inr [nB * nb * J]
      else if sp = Some ''blocks'' then Inr [nB, nb * J]
      else if sp = Some ''wavelets'' then Inr [J, nb * nB]
      else if sp = Some ''both'' then Inr [J * nB, nb]
      else Inl ValueError)"

text \<open>
  \<^verbatim>\<open>self.gwt.transform(image, self.trafo_image)\<close> overwrites the whole buffer in
  place.
\<close>

definition transform :: "env \<Rightarrow> gabor_transform \<Rightarrow> image \<Rightarrow> complex ndarray \<Rightarrow> complex ndarray" where
  "transform E g im buf =
     NDArray (shape buf) (map (gwt_transform E g im) [0..<prod_list (shape buf)])"

text \<open>The calls of \<^verbatim>\<open>_fill\<close> in the order they are made, each with its pass index.\<close>

datatype fill_event = FillAbs nat | FillPhase nat

type_synonym 'a outcome = "(error + 'a) \<times> extractor \<times> fill_event list"

text \<open>
  The body of the loop over the wavelets, for the wavelet \<open>j\<close>: the magnitude pass, then
  the phase pass if phases are used.
\<close>

definition wavelet_pass ::
  "env \<Rightarrow> nat \<Rightarrow> extractor \<Rightarrow> real ndarray option \<Rightarrow> fill_event list \<Rightarrow> nat
     \<Rightarrow> real ndarray outcome" where
  "wavelet_pass E jet s lgbphs_array tr j =
     (case trafo_image s of
        None \<Rightarrow> (Inl TypeError, s, tr)
      | Some t \<Rightarrow>
          (case np_getitem t j of
             Inl e \<Rightarrow> (Inl e, s, tr)
           | Inr plane \<Rightarrow>
               (let abs_blocks = lbphs E (np_abs plane) (lbp s) (block_size s) (block_overlap s);
                    s1 = s\<lparr> n_bins := Some (n_cols abs_blocks),
                            n_blocks := Some (n_rows abs_blocks) \<rparr>
                in case layout_shape (split s1) (n_rows abs_blocks) (n_cols abs_blocks) jet of
                     Inl e \<Rightarrow> (Inl e, s1, tr)
                   | Inr shp \<Rightarrow>
                       (let a0 = (case lgbphs_array of
                                    None \<Rightarrow> np_ndarray (mem_float E) shp
                                  | Some a \<Rightarrow> a)
                        in case fill s1 a0 abs_blocks j of
                             Inl e \<Rightarrow> (Inl e, s1, tr @ [FillAbs j])
                           | Inr a1 \<Rightarrow>
                               if use_phases s1 then
                                 (let phase_blocks =
                                        lbphs E (np_angle plane) (lbp s1)
                                          (block_size s1) (block_overlap s1);
                                      k = j + number_of_wavelets (gwt s1);
                                      tr' = tr @ [FillAbs j, FillPhase k]
                                  in case fill s1 a1 phase_blocks k of
                                       Inl e \<Rightarrow> (Inl e, s1, tr')
                                     | Inr a2 \<Rightarrow> (Inr a2, s1, tr'))
                               else (Inr a1, s1, tr @ [FillAbs j])))))"

fun wavelet_loop ::
  "env \<Rightarrow> nat \<Rightarrow> extractor \<Rightarrow> real ndarray option \<Rightarrow> fill_event list \<Rightarrow> nat list
     \<Rightarrow> real ndarray option outcome" where
  "wavelet_loop E jet s lgbphs_array tr [] = (Inr lgbphs_array, s, tr)"
| "wavelet_loop E jet s lgbphs_array tr (j # js) =
     (case wavelet_pass E jet s lgbphs_array tr j of
        (Inl e, s', tr') \<Rightarrow> (Inl e, s', tr')
      | (Inr a, s', tr') \<Rightarrow> wavelet_loop E jet s' (Some a) tr' js)"

text \<open>
  \<^verbatim>\<open>__call__\<close> up to its last line: the three assertions, the transform into the
  cached buffer, the loop. The image is 2-D once the first assertion has passed, so
  \<^verbatim>\<open>image.shape[0]\<close> and \<^verbatim>\<open>image.shape[1]\<close> exist.
\<close>

definition call_dense :: "env \<Rightarrow> extractor \<Rightarrow> image \<Rightarrow> real ndarray option outcome" where
  "call_dense E s im =
     (if ndim (pixels im) \<noteq> 2 then (Inl AssertionError, s, [])
      else if im_dtype im \<noteq> Float64 then (Inl AssertionError, s, [])
      else
        (let fresh = np_ndarray (mem_complex E)
                       [number_of_wavelets (gwt s), shape (pixels im) ! 0, shape (pixels im) ! 1];
             buf = (case trafo_image s of
                      None \<Rightarrow> fresh
                    | Some t \<Rightarrow>
                        if take 2 (drop 1 (shape t)) \<noteq> shape (pixels im) then fresh else t);
             s1 = s\<lparr> trafo_image := Some (transform E (gwt s) im buf) \<rparr>
         in wavelet_loop E (jet_length s1) s1 None [] [0..<number_of_wavelets (gwt s1)]))"

text \<open>
  \<^verbatim>\<open>return self._sparsify(lgbphs_array)\<close>; the array is still None when the loop
  has not run, and None has no shape.
\<close>

definition sparsify_opt :: "extractor \<Rightarrow> real ndarray option \<Rightarrow> error + real ndarray option" where
  "sparsify_opt s arr =
     (case arr of
        None \<Rightarrow> if \<not> sparse s then Inr None else Inl AttributeError
      | Some a \<Rightarrow> (case sparsify s a of Inl e \<Rightarrow> Inl e | Inr r \<Rightarrow> Inr (Some r)))"

definition call :: "env \<Rightarrow> extractor \<Rightarrow> image \<Rightarrow> real ndarray option outcome" where
  "call E s im =
     (case call_dense E s im of
        (Inl e, s', tr) \<Rightarrow> (Inl e, s', tr)
      | (Inr arr, s', tr) \<Rightarrow> (sparsify_opt s' arr, s', tr))"

subsection \<open>The planes of a call\<close>

text \<open>
  The cached buffer of an instance is None or an array that an earlier call has
  allocated: three axes, the first as long as the number of wavelets.
\<close>

definition buffer_ok :: "extractor \<Rightarrow> bool" where
  "buffer_ok s =
     (case trafo_image s of
        None \<Rightarrow> True
      | Some t \<Rightarrow> length (shape t) = 3 \<and> shape t ! 0 = number_of_wavelets (gwt s))"

text \<open>The response volume of an image: what the buffer holds after the transform.\<close>

definition response :: "env \<Rightarrow> gabor_transform \<Rightarrow> image \<Rightarrow> complex ndarray" where
  "response E g im =
     NDArray (number_of_wavelets g # shape (pixels im))
       (map (gwt_transform E g im)
          [0..<number_of_wavelets g * prod_list (shape (pixels im))])"

text \<open>The plane of wavelet \<open>j\<close> in the response volume.\<close>

definition response_plane :: "env \<Rightarrow> gabor_transform \<Rightarrow> image \<Rightarrow> nat \<Rightarrow> complex ndarray" where
  "response_plane E g im j =
     NDArray (shape (pixels im))
       (take (prod_list (shape (pixels im)))
          (drop (j * prod_list (shape (pixels im))) (data (response E g im))))"

text \<open>
  The histograms of the magnitude plane and of the phase plane of wavelet \<open>j\<close>, as the
  loop computes them.
\<close>

definition abs_blocks_of :: "env \<Rightarrow> extractor \<Rightarrow> image \<Rightarrow> nat \<Rightarrow> blocks" where
  "abs_blocks_of E s im j =
     lbphs E (np_abs (response_plane E (gwt s) im j)) (lbp s) (block_size s) (block_overlap s)"

definition phase_blocks_of :: "env \<Rightarrow> extractor \<Rightarrow> image \<Rightarrow> nat \<Rightarrow> blocks" where
  "phase_blocks_of E s im j =
     lbphs E (np_angle (response_plane E (gwt s) im j)) (lbp s) (block_size s) (block_overlap s)"

text \<open>
  The calls of \<^verbatim>\<open>_fill\<close> that the loop makes for wavelet \<open>j\<close>: the magnitude pass at
  index \<open>j\<close>, then, if phases are used, the phase pass at index \<open>j\<close> plus the number of
  wavelets.
\<close>

definition fills_of :: "extractor \<Rightarrow> nat \<Rightarrow> fill_event list" where
  "fills_of s j =
     FillAbs j # (if use_phases s then [FillPhase (j + number_of_wavelets (gwt s))] else [])"

subsection \<open>The index set a sparse histogram keeps\<close>

text \<open>
  The words of the specification for the first row of a sparse histogram: the indices of
  the non-zero entries, in ascending order.
\<close>

definition nonzero_indices :: "real list \<Rightarrow> nat list" where
  "nonzero_indices xs = filter (\<lambda>i. xs ! i \<noteq> 0) [0..<length xs]"

subsection \<open>Example inputs\<close>

text \<open>One scale and one direction: a single wavelet.\<close>

definition small_config :: config where
  "small_config = (defaults (Single 8))\<lparr> gabor_directions := 1, gabor_scales := 1 \<rparr>"

definition sparse_config :: config where
  "sparse_config = small_config\<lparr> sparse_histogram := True \<rparr>"

text \<open>Primitives that find no block in a plane.\<close>

definition no_blocks_env :: env where
  "no_blocks_env =
     \<lparr> gwt_transform = (\<lambda>g im i. 0),
       lbphs = (\<lambda>plane l bs bo. \<lparr> n_rows = 0, n_cols = 10, cell = (\<lambda>b k. 0) \<rparr>),
       mem_complex = (\<lambda>i. 0),
       mem_float = (\<lambda>i. 0) \<rparr>"

definition flat_image :: image where
  "flat_image = \<lparr> pixels = NDArray [4] [1, 2, 3, 4], im_dtype = Float64 \<rparr>"

definition byte_image :: image where
  "byte_image = \<lparr> pixels = NDArray [1, 2] [1, 2], im_dtype = UInt8 \<rparr>"

text \<open>A 2-D image of float64 with one pixel.\<close>

definition unit_image :: image where
  "unit_image = \<lparr> pixels = NDArray [1, 1] [5], im_dtype = Float64 \<rparr>"

text \<open>
  Primitives whose histograms always have two blocks of two bins. Every response is the
  imaginary unit, of magnitude 1 and phase \<open>pi / 2\<close>, and a histogram starts from the
  first value of its plane, so that magnitude and phase histograms differ.
\<close>

definition agreeing_env :: env where
  "agreeing_env =
     \<lparr> gwt_transform = (\<lambda>g im i. \<i>),
       lbphs = (\<lambda>plane l bs bo.
                 \<lparr> n_rows = 2, n_cols = 2, cell = (\<lambda>b k. hd (data plane) + real (10 * b + k)) \<rparr>),
       mem_complex = (\<lambda>i. 0),
       mem_float = (\<lambda>i. 0) \<rparr>"

text \<open>
  Primitives that break the contract: the plane of wavelet 0 has two blocks, every
  other plane has one. Fresh memory holds \<open>-1\<close>.
\<close>

definition disagreeing_env :: env where
  "disagreeing_env =
     \<lparr> gwt_transform = (\<lambda>g im i. of_nat i),
       lbphs = (\<lambda>plane l bs bo.
                 if data plane = [0]
                 then \<lparr> n_rows = 2, n_cols = 1, cell = (\<lambda>b k. 7) \<rparr>
                 else \<lparr> n_rows = 1, n_cols = 1, cell = (\<lambda>b k. 9) \<rparr>),
       mem_complex = (\<lambda>i. 0),
       mem_float = (\<lambda>i. - 1) \<rparr>"

definition two_wavelets_config :: config where
  "two_wavelets_config = (defaults (Single 8))\<lparr> gabor_directions := 2, gabor_scales := 1 \<rparr>"

definition phase_config :: config where
  "phase_config = small_config\<lparr> use_gabor_phases := True \<rparr>"

definition both_config :: config where
  "both_config = small_config\<lparr> split_histogram := Some ''both'' \<rparr>"

definition rows_config :: config where
  "rows_config = small_config\<lparr> split_histogram := Some ''rows'' \<rparr>"

text \<open>Two blocks of two bins, and an instance that has seen such counts.\<close>

definition demo_blocks :: blocks where
  "demo_blocks = \<lparr> n_rows = 2, n_cols = 2, cell = (\<lambda>b k. real (10 * b + k + 1)) \<rparr>"

definition counted_instance :: "string option \<Rightarrow> extractor" where
  "counted_instance sp =
     (instance_of (small_config\<lparr> split_histogram := sp \<rparr>))\<lparr> n_bins := Some 2, n_blocks := Some 2 \<rparr>"

section \<open>Properties\<close>

subsection \<open>Construction\<close>

lemma overlap_exceeds_item:
  "i < length bs \<Longrightarrow> i < length bo \<Longrightarrow> overlap_exceeds bs bo i = Inr (bs ! i < bo ! i)"
  by (simp add: overlap_exceeds_def item_def)

lemma truthy_iff: "truthy sp \<longleftrightarrow> sp \<noteq> None \<and> sp \<noteq> Some []"
  by (cases sp) (simp_all add: truthy_def)

lemma init_on_pairs:
  assumes "2 \<le> length (as_pair (block_size_arg c))"
    and "2 \<le> length (as_pair (block_overlap_arg c))"
  shows "init c =
    (if as_pair (block_size_arg c) ! 0 < as_pair (block_overlap_arg c) ! 0
        \<or> as_pair (block_size_arg c) ! 1 < as_pair (block_overlap_arg c) ! 1
        \<or> (sparse_histogram c \<and> truthy (split_histogram c))
     then Inl ValueError else Inr (instance_of c))"
proof -
  let ?bs = "as_pair (block_size_arg c)" and ?bo = "as_pair (block_overlap_arg c)"
  have e0: "overlap_exceeds ?bs ?bo 0 = Inr (?bs ! 0 < ?bo ! 0)"
    using assms by (intro overlap_exceeds_item) linarith+
  have e1: "overlap_exceeds ?bs ?bo 1 = Inr (?bs ! 1 < ?bo ! 1)"
    using assms by (intro overlap_exceeds_item) linarith+
  show ?thesis
    unfolding init_def Let_def e0 e1 by simp
qed

lemma init_reads_pairs:
  "init c = init (c\<lparr> block_size_arg := Seq (as_pair (block_size_arg c)),
                     block_overlap_arg := Seq (as_pair (block_overlap_arg c)) \<rparr>)"
  by (simp add: init_def instance_of_def Let_def split: sum.splits)

text \<open>
  C7. Let the split be one of the values of the specification (None, "blocks",
  "wavelets", "both"), and the block size and the block overlap be pairs (or integers,
  which become pairs). Then construction raises ValueError when the overlap exceeds the
  size in the first or in the second dimension, and when sparse is set together with a
  split that is not None; in every other case it returns the instance.
\<close>

theorem init_validation:
  assumes "2 \<le> length (as_pair (block_size_arg c))"
    and "2 \<le> length (as_pair (block_overlap_arg c))"
    and "split_histogram c \<in> {None, Some ''blocks'', Some ''wavelets'', Some ''both''}"
  shows "init c =
    (if as_pair (block_size_arg c) ! 0 < as_pair (block_overlap_arg c) ! 0
        \<or> as_pair (block_size_arg c) ! 1 < as_pair (block_overlap_arg c) ! 1
        \<or> (sparse_histogram c \<and> split_histogram c \<noteq> None)
     then Inl ValueError else Inr (instance_of c))"
proof -
  from assms(3) have "truthy (split_histogram c) \<longleftrightarrow> split_histogram c \<noteq> None"
    by (auto simp: truthy_def)
  with init_on_pairs [OF assms(1,2)] show ?thesis by simp
qed

text \<open>
  The three cases at concrete configurations: size (4, 4) with overlap (5, 5) fails,
  sparse with split "blocks" fails, the defaults with block size 8 are accepted.
\<close>

theorem init_validation_witness:
  "init ((defaults (Seq [4, 4]))\<lparr> block_overlap_arg := Seq [5, 5] \<rparr>) = Inl ValueError
   \<and> init ((defaults (Single 8))\<lparr> sparse_histogram := True,
                                    split_histogram := Some ''blocks'' \<rparr>) = Inl ValueError
   \<and> init (defaults (Single 8)) = Inr (instance_of (defaults (Single 8)))"
  using init_validation [of "(defaults (Seq [4, 4]))\<lparr> block_overlap_arg := Seq [5, 5] \<rparr>"]
    init_validation [of "(defaults (Single 8))\<lparr> sparse_histogram := True,
                                                 split_histogram := Some ''blocks'' \<rparr>"]
    init_validation [of "defaults (Single 8)"]
  by (simp add: defaults_def)

text \<open>
  C9. A block size or overlap given as one integer \<open>v\<close> becomes the pair \<open>(v, v)\<close>, and
  construction only ever looks at the pairs: passing the integer gives the same result
  as passing the pair, for the check as for the instance. The overlap defaults to the
  integer 0. With non-negative block sizes, an overlap that is zero in a dimension passes
  the check of that dimension, so that the defaults with a block size \<open>v \<ge> 0\<close> are
  accepted with overlap \<open>(0, 0)\<close>.
\<close>

theorem init_normalizes_sizes:
  "as_pair (Single v) = [v, v]
   \<and> init c = init (c\<lparr> block_size_arg := Seq (as_pair (block_size_arg c)),
                        block_overlap_arg := Seq (as_pair (block_overlap_arg c)) \<rparr>)
   \<and> block_overlap_arg (defaults bs) = Single 0
   \<and> (as_pair (block_size_arg c) = [h, w] \<and> as_pair (block_overlap_arg c) = [oh, ow]
        \<and> 0 \<le> h \<and> 0 \<le> w \<and> (oh = 0 \<or> oh \<le> h) \<and> (ow = 0 \<or> ow \<le> w)
        \<and> \<not> (sparse_histogram c \<and> truthy (split_histogram c))
      \<longrightarrow> init c = Inr (instance_of c)
          \<and> block_size (instance_of c) = [h, w] \<and> block_overlap (instance_of c) = [oh, ow])
   \<and> (0 \<le> v \<longrightarrow> init (defaults (Single v)) = Inr (instance_of (defaults (Single v)))
          \<and> block_size (instance_of (defaults (Single v))) = [v, v]
          \<and> block_overlap (instance_of (defaults (Single v))) = [0, 0])"
proof (intro conjI impI)
  show "as_pair (Single v) = [v, v]" by simp
  show "init c = init (c\<lparr> block_size_arg := Seq (as_pair (block_size_arg c)),
                          block_overlap_arg := Seq (as_pair (block_overlap_arg c)) \<rparr>)"
    by (rule init_reads_pairs)
  show "block_overlap_arg (defaults bs) = Single 0" by (simp add: defaults_def)
next
  assume a: "as_pair (block_size_arg c) = [h, w] \<and> as_pair (block_overlap_arg c) = [oh, ow]
        \<and> 0 \<le> h \<and> 0 \<le> w \<and> (oh = 0 \<or> oh \<le> h) \<and> (ow = 0 \<or> ow \<le> w)
        \<and> \<not> (sparse_histogram c \<and> truthy (split_histogram c))"
  then have "oh \<le> h" "ow \<le> w" by auto
  with a show "init c = Inr (instance_of c)"
    by (simp add: init_on_pairs)
  from a show "block_size (instance_of c) = [h, w]" by (simp add: instance_of_def)
  from a show "block_overlap (instance_of c) = [oh, ow]" by (simp add: instance_of_def)
next
  assume v: "0 \<le> v"
  then show "init (defaults (Single v)) = Inr (instance_of (defaults (Single v)))"
    using init_on_pairs [of "defaults (Single v)"] by (simp add: defaults_def truthy_def)
  show "block_size (instance_of (defaults (Single v))) = [v, v]"
    by (simp add: instance_of_def defaults_def)
  show "block_overlap (instance_of (defaults (Single v))) = [0, 0]"
    by (simp add: instance_of_def defaults_def)
qed

text \<open>
  Block size 8 with the default overlap, and block size (8, 6) with an overlap that is
  zero in the first dimension only.
\<close>

theorem init_normalizes_sizes_witness:
  "init (defaults (Single 8)) = Inr (instance_of (defaults (Single 8)))
   \<and> block_size (instance_of (defaults (Single 8))) = [8, 8]
   \<and> block_overlap (instance_of (defaults (Single 8))) = [0, 0]
   \<and> init ((defaults (Seq [8, 6]))\<lparr> block_overlap_arg := Seq [0, 3] \<rparr>)
       = Inr (instance_of ((defaults (Seq [8, 6]))\<lparr> block_overlap_arg := Seq [0, 3] \<rparr>))"
  using init_normalizes_sizes [of 8 "(defaults (Seq [8, 6]))\<lparr> block_overlap_arg := Seq [0, 3] \<rparr>"
      undefined 8 6 0 3]
  by (simp add: defaults_def truthy_def)

subsection \<open>Sparsification\<close>

lemma sparsify_loop_filter:
  "sparsify_loop xs js (ix, vs) =
     (ix @ filter (\<lambda>i. xs ! i \<noteq> 0) js, vs @ map ((!) xs) (filter (\<lambda>i. xs ! i \<noteq> 0) js))"
  by (induction js arbitrary: ix vs) simp_all

lemma sparsify_dense:
  "sparse s \<Longrightarrow> sparsify s (NDArray [length xs] xs) =
     Inr (np_array2 (nonzero_indices xs) (map ((!) xs) (nonzero_indices xs)))"
  by (simp add: sparsify_def sparsify_loop_filter nonzero_indices_def)

lemma sparsify_gives_two_rows:
  assumes r: "sparsify s x = Inr y" and sp: "sparse s"
  shows "length (shape y) = 2 \<and> shape y ! 0 = 2"
proof (cases "length (shape x) = 2 \<and> shape x ! 0 = 2")
  case True
  with r sp have "y = x" unfolding sparsify_def by simp
  with True show ?thesis by simp
next
  case False
  obtain ix vs where l: "sparsify_loop (data x) [0..<shape x ! 0] ([], []) = (ix, vs)"
    by (cases "sparsify_loop (data x) [0..<shape x ! 0] ([], [])") blast
  from r sp False l have "y = np_array2 ix vs"
    unfolding sparsify_def by (simp split: if_splits)
  then show ?thesis by (simp add: np_array2_def)
qed

text \<open>
  C5. With sparse set, a 1-D array \<open>xs\<close> becomes the array of two rows whose first row
  is \<open>nonzero_indices xs\<close>, converted to floating point, and whose second row holds the
  entries of \<open>xs\<close> at these indices. These indices are strictly ascending and are exactly
  the positions of the non-zero entries. When every entry is zero, both rows are empty:
  the shape is (2, 0).
\<close>

theorem sparsify_dense_array:
  assumes "sparse s"
  shows "sparsify s (NDArray [length xs] xs)
           = Inr (NDArray [2, length (nonzero_indices xs)]
                    (map real (nonzero_indices xs) @ map ((!) xs) (nonzero_indices xs)))
         \<and> sorted_wrt (<) (nonzero_indices xs)
         \<and> set (nonzero_indices xs) = {i. i < length xs \<and> xs ! i \<noteq> 0}
         \<and> ((\<forall>x \<in> set xs. x = 0) \<longrightarrow> sparsify s (NDArray [length xs] xs) = Inr (NDArray [2, 0] []))"
proof (intro conjI impI)
  show "sparsify s (NDArray [length xs] xs)
           = Inr (NDArray [2, length (nonzero_indices xs)]
                    (map real (nonzero_indices xs) @ map ((!) xs) (nonzero_indices xs)))"
    using assms by (simp add: sparsify_dense np_array2_def)
  show "sorted_wrt (<) (nonzero_indices xs)"
    by (simp add: nonzero_indices_def sorted_wrt_filter)
  show "set (nonzero_indices xs) = {i. i < length xs \<and> xs ! i \<noteq> 0}"
    by (auto simp: nonzero_indices_def)
next
  assume "\<forall>x \<in> set xs. x = 0"
  then have "nonzero_indices xs = []"
    by (simp add: nonzero_indices_def filter_empty_conv)
  then show "sparsify s (NDArray [length xs] xs) = Inr (NDArray [2, 0] [])"
    using assms by (simp add: sparsify_dense np_array2_def)
qed

text \<open>A histogram with two non-zero entries, and one without any.\<close>

theorem sparsify_dense_array_witness:
  "sparse (instance_of sparse_config)
   \<and> sparsify (instance_of sparse_config) (NDArray [4] [0, 3, 0, 5]) = Inr (NDArray [2, 2] [1, 3, 3, 5])
   \<and> sparsify (instance_of sparse_config) (NDArray [2] [0, 0]) = Inr (NDArray [2, 0] [])"
proof -
  have sp: "sparse (instance_of sparse_config)"
    by (simp add: instance_of_def sparse_config_def)
  have n: "nonzero_indices [0, 3, 0, 5] = [1, 3]"
    by (simp add: nonzero_indices_def upt_rec)
  have n0: "nonzero_indices [0, 0] = []"
    by (simp add: nonzero_indices_def upt_rec)
  show ?thesis
    using sp sparsify_dense_array [OF sp, of "[0, 3, 0, 5]"] sparsify_dense_array [OF sp, of "[0, 0]"]
    by (simp add: n n0 eval_nat_numeral)
qed

text \<open>
  C6. With sparse unset every array comes back as it is; an array of two rows comes back
  as it is; and a 1-D array or an array of two rows is accepted, with a result that
  sparsification leaves as it is.
\<close>

theorem sparsify_idempotent:
  "(\<not> sparse s \<longrightarrow> sparsify s x = Inr x)
   \<and> (length (shape x) = 2 \<and> shape x ! 0 = 2 \<longrightarrow> sparsify s x = Inr x)
   \<and> (length (shape x) = 1 \<or> (length (shape x) = 2 \<and> shape x ! 0 = 2)
        \<longrightarrow> (\<exists>y. sparsify s x = Inr y \<and> sparsify s y = Inr y))"
proof (intro conjI impI)
  show "\<not> sparse s \<Longrightarrow> sparsify s x = Inr x" by (simp add: sparsify_def)
  show "length (shape x) = 2 \<and> shape x ! 0 = 2 \<Longrightarrow> sparsify s x = Inr x"
    by (simp add: sparsify_def)
  assume d: "length (shape x) = 1 \<or> (length (shape x) = 2 \<and> shape x ! 0 = 2)"
  have "\<exists>y. sparsify s x = Inr y"
  proof (cases "\<not> sparse s \<or> (length (shape x) = 2 \<and> shape x ! 0 = 2)")
    case True
    then have "sparsify s x = Inr x" unfolding sparsify_def by presburger
    then show ?thesis by blast
  next
    case False
    with d have one: "length (shape x) = 1" by blast
    obtain ix vs where l: "sparsify_loop (data x) [0..<shape x ! 0] ([], []) = (ix, vs)"
      by (cases "sparsify_loop (data x) [0..<shape x ! 0] ([], [])") blast
    have "sparsify s x = Inr (np_array2 ix vs)"
      using False one l unfolding sparsify_def by simp
    then show ?thesis by blast
  qed
  then obtain y where y: "sparsify s x = Inr y" by blast
  have "sparsify s y = Inr y"
  proof (cases "sparse s")
    case True
    with y have "length (shape y) = 2 \<and> shape y ! 0 = 2" by (rule sparsify_gives_two_rows)
    then show ?thesis unfolding sparsify_def by simp
  next
    case False
    then show ?thesis by (simp add: sparsify_def)
  qed
  with y show "\<exists>y. sparsify s x = Inr y \<and> sparsify s y = Inr y" by blast
qed

text \<open>
  A dense array under a sparse instance, its sparse form under the same instance, and a
  dense array under an instance that is not sparse.
\<close>

theorem sparsify_idempotent_witness:
  "sparsify (instance_of sparse_config) (NDArray [4] [0, 3, 0, 5]) = Inr (NDArray [2, 2] [1, 3, 3, 5])
   \<and> sparsify (instance_of sparse_config) (NDArray [2, 2] [1, 3, 3, 5]) = Inr (NDArray [2, 2] [1, 3, 3, 5])
   \<and> sparsify (instance_of small_config) (NDArray [4] [0, 3, 0, 5]) = Inr (NDArray [4] [0, 3, 0, 5])"
proof -
  have l: "sparsify_loop [0, 3, 0, 5] [0..<4] ([], []) = ([1, 3], [3, 5])"
    by (simp add: upt_rec)
  have a: "sparsify (instance_of sparse_config) (NDArray [4] [0, 3, 0, 5]) = Inr (NDArray [2, 2] [1, 3, 3, 5])"
    by (simp add: sparsify_def instance_of_def sparse_config_def l np_array2_def)
  show ?thesis
    using a sparsify_idempotent [of "instance_of sparse_config" "NDArray [2, 2] [1, 3, 3, 5]"]
      sparsify_idempotent [of "instance_of small_config" "NDArray [4] [0, 3, 0, 5]"]
      sparsify_idempotent [of "instance_of sparse_config" "NDArray [4] [0, 3, 0, 5]"]
    by (simp add: instance_of_def small_config_def defaults_def)
qed

subsection \<open>The checks on the image\<close>

text \<open>
  What the assertions of \<^verbatim>\<open>__call__\<close> reject. An image that is not 2-D, or whose
  element type is not float64, makes the call raise an AssertionError before anything
  else happens: no output is returned, the instance is as it was and nothing has been
  filled. The assertions do not look at the size of the image; what becomes of an empty
  2-D image of float64 is decided inside the library's transform, of which nothing is
  known here.
\<close>

theorem call_rejects_image:
  "ndim (pixels im) \<noteq> 2 \<or> im_dtype im \<noteq> Float64 \<Longrightarrow> call E s im = (Inl AssertionError, s, [])"
  by (auto simp: call_def call_dense_def)

text \<open>A 1-D image of float64, and a 2-D image of bytes.\<close>

theorem call_rejects_image_witness:
  "ndim (pixels flat_image) \<noteq> 2 \<and> im_dtype byte_image \<noteq> Float64
   \<and> call no_blocks_env (instance_of small_config) flat_image
        = (Inl AssertionError, instance_of small_config, [])
   \<and> call no_blocks_env (instance_of small_config) byte_image
        = (Inl AssertionError, instance_of small_config, [])"
  using call_rejects_image [of flat_image no_blocks_env "instance_of small_config"]
    call_rejects_image [of byte_image no_blocks_env "instance_of small_config"]
  by (simp add: flat_image_def byte_image_def ndim_def)

subsection \<open>Assigning to slices\<close>

lemma broadcast_exact: "length v = d \<Longrightarrow> broadcast v d d = Inr v"
  by (cases "d = 0") (simp_all add: broadcast_def)

lemma assign_slots_row:
  assumes "lo + length v \<le> n"
  shows "assign_slots a base n [] lo (lo + length v) v =
           Inr (NDArray (shape a) (take (base + lo) (data a) @ v @ drop (base + lo + length v) (data a)))"
proof -
  have "min lo n = lo" "min (lo + length v) n = lo + length v" using assms by simp_all
  then show ?thesis
    by (simp add: assign_slots_def Let_def broadcast_exact)
qed

lemma nth_overwrite:
  assumes "off + length v \<le> length xs" "i < length xs"
  shows "(take off xs @ v @ drop (off + length v) xs) ! i =
           (if off \<le> i \<and> i < off + length v then v ! (i - off) else xs ! i)"
  using assms by (auto simp: nth_append)

lemma length_overwrite:
  "off + length v \<le> length xs \<Longrightarrow> length (take off xs @ v @ drop (off + length v) xs) = length xs"
  by simp

lemma np_setslice_flat:
  assumes "shape a = [n]" "well_shaped a" "lo + length v \<le> n"
  shows "\<exists>a'. np_setslice a lo (lo + length v) v = Inr a' \<and> shape a' = [n] \<and> well_shaped a'
           \<and> (\<forall>i<n. data a' ! i = (if lo \<le> i \<and> i < lo + length v then v ! (i - lo) else data a ! i))"
proof -
  let ?a' = "NDArray (shape a) (take lo (data a) @ v @ drop (lo + length v) (data a))"
  have len: "length (data a) = n" using assms by (simp add: well_shaped_def)
  have "np_setslice a lo (lo + length v) v = Inr ?a'"
    using assms assign_slots_row [of lo v n a 0] by (simp add: np_setslice_def)
  moreover have "shape ?a' = [n]" using assms by simp
  moreover have "well_shaped ?a'" using assms len by (simp add: well_shaped_def)
  moreover have "\<forall>i<n. data ?a' ! i = (if lo \<le> i \<and> i < lo + length v then v ! (i - lo) else data a ! i)"
    using assms len nth_overwrite [of lo v "data a"] by simp
  ultimately show ?thesis by blast
qed

lemma flat_index_in_row:
  assumes "c < (C::nat)" "lo + m \<le> C"
  shows "(r * C + lo \<le> r' * C + c \<and> r' * C + c < r * C + lo + m) \<longleftrightarrow> (r' = r \<and> lo \<le> c \<and> c < lo + m)"
proof (cases r' r rule: linorder_cases)
  case less
  then have "Suc r' * C \<le> r * C" by (intro mult_le_mono1) simp
  then have "r' * C + c < r * C" using assms by simp
  with less show ?thesis by auto
next
  case equal
  then show ?thesis by auto
next
  case greater
  then have "Suc r * C \<le> r' * C" by (intro mult_le_mono1) simp
  then have "r * C + lo + m \<le> r' * C + c" using assms by simp
  with greater show ?thesis by auto
qed

lemma flat_index_bound: "r < R \<Longrightarrow> c < C \<Longrightarrow> r * C + c < R * (C::nat)"
proof -
  assume "r < R" "c < C"
  then have "Suc r * C \<le> R * C" by (intro mult_le_mono1) simp
  with \<open>c < C\<close> show ?thesis by simp
qed

lemma np_setitem2_cells:
  assumes "shape a = [R, C]" "well_shaped a" "r < R" "lo + length v \<le> C"
  shows "\<exists>a'. np_setitem2 a r lo (lo + length v) v = Inr a' \<and> shape a' = [R, C] \<and> well_shaped a'
           \<and> (\<forall>r'<R. \<forall>c<C. np_item2 a' r' c =
                 (if r' = r \<and> lo \<le> c \<and> c < lo + length v then v ! (c - lo) else np_item2 a r' c))"
proof -
  let ?off = "r * C + lo"
  let ?a' = "NDArray (shape a) (take ?off (data a) @ v @ drop (?off + length v) (data a))"
  have len: "length (data a) = R * C" using assms by (simp add: well_shaped_def)
  have fit: "?off + length v \<le> length (data a)"
  proof -
    have "Suc r * C \<le> R * C" using assms by (intro mult_le_mono1) simp
    then show ?thesis using assms len by simp
  qed
  have "np_setitem2 a r lo (lo + length v) v = Inr ?a'"
    using assms assign_slots_row [of lo v C a "r * C"] by (simp add: np_setitem2_def)
  moreover have "shape ?a' = [R, C]" using assms by simp
  moreover have "well_shaped ?a'" using assms len fit by (simp add: well_shaped_def)
  moreover have "np_item2 ?a' r' c =
                 (if r' = r \<and> lo \<le> c \<and> c < lo + length v then v ! (c - lo) else np_item2 a r' c)"
    if "r' < R" "c < C" for r' c
  proof -
    have i: "r' * C + c < length (data a)" using that len by (simp add: flat_index_bound)
    have "np_item2 ?a' r' c = (take ?off (data a) @ v @ drop (?off + length v) (data a)) ! (r' * C + c)"
      using assms by (simp add: np_item2_def)
    also have "\<dots> = (if ?off \<le> r' * C + c \<and> r' * C + c < ?off + length v
                      then v ! (r' * C + c - ?off) else data a ! (r' * C + c))"
      using fit i by (rule nth_overwrite)
    also have "\<dots> = (if r' = r \<and> lo \<le> c \<and> c < lo + length v then v ! (c - lo) else np_item2 a r' c)"
      using flat_index_in_row [OF that(2) assms(4), of r r'] assms(1)
      by (auto simp: np_item2_def)
    finally show ?thesis .
  qed
  ultimately show ?thesis by blast
qed


lemma for_each_snoc:
  "for_each body (bs @ [b]) a =
     (case for_each body bs a of Inl e \<Rightarrow> Inl e | Inr a' \<Rightarrow> body b a')"
  by (induction bs arbitrary: a) (simp_all split: sum.splits)

lemma for_each_invariant:
  assumes "Inv 0 a"
    and "\<And>b x. b < n \<Longrightarrow> Inv b x \<Longrightarrow> \<exists>x'. body b x = Inr x' \<and> Inv (Suc b) x'"
  shows "\<exists>a'. for_each body [0..<n] a = Inr a' \<and> Inv n a'"
  using assms(2)
proof (induction n)
  case 0
  then show ?case using assms(1) by simp
next
  case (Suc n)
  then obtain a' where a': "for_each body [0..<n] a = Inr a'" "Inv n a'"
    by (metis less_Suc_eq)
  from Suc.prems [of n a'] a' obtain a'' where "body n a' = Inr a''" "Inv (Suc n) a''"
    by auto
  with a' show ?case by (simp add: for_each_snoc)
qed


lemma write_rows_2d:
  fixes rr lo :: "nat \<Rightarrow> nat"
  assumes sh: "shape a = [R, C]" "well_shaped a"
    and inb: "\<And>b. b < n \<Longrightarrow> rr b < R \<and> lo b + m \<le> C"
    and dis: "\<And>b b'. b < b' \<Longrightarrow> b' < n \<Longrightarrow> rr b \<noteq> rr b' \<or> lo b + m \<le> lo b' \<or> lo b' + m \<le> lo b"
    and body: "\<And>b x. b < n \<Longrightarrow> body b x = np_setitem2 x (rr b) (lo b) (lo b + m) (v b)"
    and lv: "\<And>b. b < n \<Longrightarrow> length (v b) = m"
  shows "\<exists>a'. for_each body [0..<n] a = Inr a' \<and> shape a' = [R, C] \<and> well_shaped a'
           \<and> (\<forall>b<n. \<forall>k<m. np_item2 a' (rr b) (lo b + k) = v b ! k)
           \<and> (\<forall>r<R. \<forall>c<C. (\<forall>b<n. \<not> (rr b = r \<and> lo b \<le> c \<and> c < lo b + m))
                  \<longrightarrow> np_item2 a' r c = np_item2 a r c)"
proof -
  define Inv where "Inv i x \<longleftrightarrow> shape x = [R, C] \<and> well_shaped x
           \<and> (\<forall>b<i. \<forall>k<m. np_item2 x (rr b) (lo b + k) = v b ! k)
           \<and> (\<forall>r<R. \<forall>c<C. (\<forall>b<i. \<not> (rr b = r \<and> lo b \<le> c \<and> c < lo b + m))
                  \<longrightarrow> np_item2 x r c = np_item2 a r c)" for i x
  have start: "Inv 0 a" using sh by (simp add: Inv_def)
  have step: "\<exists>x'. body b x = Inr x' \<and> Inv (Suc b) x'" if b: "b < n" and inv: "Inv b x" for b x
  proof -
    from inv have shx: "shape x = [R, C]" "well_shaped x" by (simp_all add: Inv_def)
    from inb [OF b] have rb: "rr b < R" and cb: "lo b + length (v b) \<le> C" using lv [OF b] by simp_all
    from np_setitem2_cells [OF shx rb cb] obtain x' where
      x': "np_setitem2 x (rr b) (lo b) (lo b + length (v b)) (v b) = Inr x'"
        "shape x' = [R, C]" "well_shaped x'"
      and cells: "\<And>r' c. r' < R \<Longrightarrow> c < C \<Longrightarrow> np_item2 x' r' c =
          (if r' = rr b \<and> lo b \<le> c \<and> c < lo b + length (v b) then v b ! (c - lo b) else np_item2 x r' c)"
      by blast
    have "body b x = Inr x'" using body [OF b] x'(1) lv [OF b] by simp
    moreover have "np_item2 x' (rr b') (lo b' + k) = v b' ! k" if "b' < Suc b" "k < m" for b' k
    proof (cases "b' = b")
      case True
      have "lo b + k < C" using cb lv [OF b] that by simp
      with cells [OF rb this] True that lv [OF b] show ?thesis by simp
    next
      case False
      with that have lt: "b' < b" by simp
      then have b'n: "b' < n" using b by simp
      from inb [OF b'n] that have in': "rr b' < R" "lo b' + k < C" by simp_all
      have "\<not> (rr b' = rr b \<and> lo b \<le> lo b' + k \<and> lo b' + k < lo b + length (v b))"
        using dis [OF lt b] that lv [OF b] by auto
      with cells [OF in'] have "np_item2 x' (rr b') (lo b' + k) = np_item2 x (rr b') (lo b' + k)"
        by simp
      also have "\<dots> = v b' ! k" using inv lt that by (simp add: Inv_def)
      finally show ?thesis .
    qed
    moreover have "np_item2 x' r c = np_item2 a r c"
      if "r < R" "c < C" "\<forall>b'<Suc b. \<not> (rr b' = r \<and> lo b' \<le> c \<and> c < lo b' + m)" for r c
    proof -
      from that(3) have "\<not> (r = rr b \<and> lo b \<le> c \<and> c < lo b + length (v b))"
        using lv [OF b] by auto
      with cells [OF that(1,2)] have "np_item2 x' r c = np_item2 x r c" by simp
      also have "\<dots> = np_item2 a r c" using inv that by (simp add: Inv_def)
      finally show ?thesis .
    qed
    ultimately show ?thesis using x'(2,3) unfolding Inv_def by blast
  qed
  from for_each_invariant [of Inv a n body, OF start step]
  show ?thesis unfolding Inv_def by blast
qed

lemma write_rows_1d:
  fixes lo :: "nat \<Rightarrow> nat"
  assumes sh: "shape a = [N]" "well_shaped a"
    and inb: "\<And>b. b < n \<Longrightarrow> lo b + m \<le> N"
    and dis: "\<And>b b'. b < b' \<Longrightarrow> b' < n \<Longrightarrow> lo b + m \<le> lo b' \<or> lo b' + m \<le> lo b"
    and body: "\<And>b x. b < n \<Longrightarrow> body b x = np_setslice x (lo b) (lo b + m) (v b)"
    and lv: "\<And>b. b < n \<Longrightarrow> length (v b) = m"
  shows "\<exists>a'. for_each body [0..<n] a = Inr a' \<and> shape a' = [N] \<and> well_shaped a'
           \<and> (\<forall>b<n. \<forall>k<m. data a' ! (lo b + k) = v b ! k)
           \<and> (\<forall>i<N. (\<forall>b<n. \<not> (lo b \<le> i \<and> i < lo b + m)) \<longrightarrow> data a' ! i = data a ! i)"
proof -
  define Inv where "Inv i x \<longleftrightarrow> shape x = [N] \<and> well_shaped x
           \<and> (\<forall>b<i. \<forall>k<m. data x ! (lo b + k) = v b ! k)
           \<and> (\<forall>p<N. (\<forall>b<i. \<not> (lo b \<le> p \<and> p < lo b + m)) \<longrightarrow> data x ! p = data a ! p)" for i x
  have start: "Inv 0 a" using sh by (simp add: Inv_def)
  have step: "\<exists>x'. body b x = Inr x' \<and> Inv (Suc b) x'" if b: "b < n" and inv: "Inv b x" for b x
  proof -
    from inv have shx: "shape x = [N]" "well_shaped x" by (simp_all add: Inv_def)
    from inb [OF b] have cb: "lo b + length (v b) \<le> N" using lv [OF b] by simp
    from np_setslice_flat [OF shx cb] obtain x' where
      x': "np_setslice x (lo b) (lo b + length (v b)) (v b) = Inr x'" "shape x' = [N]" "well_shaped x'"
      and cells: "\<And>i. i < N \<Longrightarrow> data x' ! i =
          (if lo b \<le> i \<and> i < lo b + length (v b) then v b ! (i - lo b) else data x ! i)"
      by blast
    have "body b x = Inr x'" using body [OF b] x'(1) lv [OF b] by simp
    moreover have "data x' ! (lo b' + k) = v b' ! k" if "b' < Suc b" "k < m" for b' k
    proof (cases "b' = b")
      case True
      have "lo b + k < N" using cb lv [OF b] that by simp
      with cells [OF this] True that lv [OF b] show ?thesis by simp
    next
      case False
      with that have lt: "b' < b" by simp
      then have b'n: "b' < n" using b by simp
      from inb [OF b'n] that have in': "lo b' + k < N" by simp
      have "\<not> (lo b \<le> lo b' + k \<and> lo b' + k < lo b + length (v b))"
        using dis [OF lt b] that lv [OF b] by auto
      with cells [OF in'] have "data x' ! (lo b' + k) = data x ! (lo b' + k)" by simp
      also have "\<dots> = v b' ! k" using inv lt that by (simp add: Inv_def)
      finally show ?thesis .
    qed
    moreover have "data x' ! p = data a ! p"
      if "p < N" "\<forall>b'<Suc b. \<not> (lo b' \<le> p \<and> p < lo b' + m)" for p
    proof -
      from that(2) have "\<not> (lo b \<le> p \<and> p < lo b + length (v b))" using lv [OF b] by auto
      with cells [OF that(1)] have "data x' ! p = data x ! p" by simp
      also have "\<dots> = data a ! p" using inv that by (simp add: Inv_def)
      finally show ?thesis .
    qed
    ultimately show ?thesis using x'(2,3) unfolding Inv_def by blast
  qed
  from for_each_invariant [of Inv a n body, OF start step]
  show ?thesis unfolding Inv_def by blast
qed

subsection \<open>What \<^verbatim>\<open>_fill\<close> writes\<close>

lemma block_row_ok: "b < n_rows bl \<Longrightarrow> block_row bl b = Inr (map (cell bl b) [0..<n_cols bl])"
  by (simp add: block_row_def)

lemma suc_mult_le: "b < n \<Longrightarrow> b * m + m \<le> n * (m::nat)"
proof -
  assume "b < n"
  then have "Suc b * m \<le> n * m" by (intro mult_le_mono1) simp
  then show ?thesis by simp
qed

lemma fill_flat:
  assumes sp: "split s = None" and nb: "n_bins s = Some nb" and nB: "n_blocks s = Some nB"
    and bl: "n_rows bl = nB" "n_cols bl = nb"
    and sh: "shape a = [nB * nb * J]" "well_shaped a" and j: "j < J"
  shows "\<exists>a'. fill s a bl j = Inr a' \<and> shape a' = shape a \<and> well_shaped a'
           \<and> (\<forall>b<nB. \<forall>k<nb. data a' ! (j * nb * nB + b * nb + k) = cell bl b k)
           \<and> (\<forall>i<nB * nb * J. i < j * nb * nB \<or> (j + 1) * nb * nB \<le> i \<longrightarrow> data a' ! i = data a ! i)"
proof -
  let ?start = "j * nb * nB"
  let ?lo = "\<lambda>b. ?start + b * nb"
  let ?v = "\<lambda>b. map (cell bl b) [0..<nb]"
  let ?body = "\<lambda>b x. case block_row bl b of Inl e \<Rightarrow> Inl e
                 | Inr row \<Rightarrow> np_setslice x (?start + b * nb) (?start + (b + 1) * nb) row"
  have top: "?start + nB * nb \<le> nB * nb * J"
    using suc_mult_le [OF j, of "nB * nb"] by (simp add: mult.commute mult.left_commute)
  have inb: "?lo b + nb \<le> nB * nb * J" if "b < nB" for b
    using suc_mult_le [OF that, of nb] top by simp
  have dis: "?lo b + nb \<le> ?lo b' \<or> ?lo b' + nb \<le> ?lo b" if "b < b'" for b b'
    using suc_mult_le [OF that, of nb] by simp
  have body: "?body b x = np_setslice x (?lo b) (?lo b + nb) (?v b)" if "b < nB" for b x
    using that bl by (simp add: block_row_ok ac_simps)
  from write_rows_1d [of a "nB * nb * J" nB ?lo nb ?body ?v, OF sh inb dis body]
  obtain a' where a': "for_each ?body [0..<nB] a = Inr a'" "shape a' = [nB * nb * J]" "well_shaped a'"
    and w: "\<forall>b<nB. \<forall>k<nb. data a' ! (?lo b + k) = ?v b ! k"
    and u: "\<forall>i<nB * nb * J. (\<forall>b<nB. \<not> (?lo b \<le> i \<and> i < ?lo b + nb)) \<longrightarrow> data a' ! i = data a ! i"
    by auto
  have "fill s a bl j = Inr a'"
    using sp nb nB a'(1) by (simp add: fill_def attr_def)
  moreover have "data a' ! (?start + b * nb + k) = cell bl b k" if "b < nB" "k < nb" for b k
    using w that by simp
  moreover have "data a' ! i = data a ! i"
    if "i < nB * nb * J" "i < ?start \<or> (j + 1) * nb * nB \<le> i" for i
  proof -
    have "\<not> (?lo b \<le> i \<and> i < ?lo b + nb)" if "b < nB" for b
      using suc_mult_le [OF that, of nb] \<open>i < ?start \<or> (j + 1) * nb * nB \<le> i\<close>
      by (auto simp: algebra_simps)
    with u that(1) show ?thesis by blast
  qed
  ultimately show ?thesis using a'(2,3) sh by auto
qed


lemma fill_blocks:
  assumes sp: "split s = Some ''blocks''" and nb: "n_bins s = Some nb" and nB: "n_blocks s = Some nB"
    and bl: "n_rows bl = nB" "n_cols bl = nb"
    and sh: "shape a = [nB, nb * J]" "well_shaped a" and j: "j < J"
  shows "\<exists>a'. fill s a bl j = Inr a' \<and> shape a' = shape a \<and> well_shaped a'
           \<and> (\<forall>b<nB. \<forall>k<nb. np_item2 a' b (j * nb + k) = cell bl b k)
           \<and> (\<forall>r<nB. \<forall>c<nb * J. \<not> (j * nb \<le> c \<and> c < (j + 1) * nb)
                  \<longrightarrow> np_item2 a' r c = np_item2 a r c)"
proof -
  let ?v = "\<lambda>b. map (cell bl b) [0..<nb]"
  let ?body = "\<lambda>b x. case block_row bl b of Inl e \<Rightarrow> Inl e
                 | Inr row \<Rightarrow> (case attr (n_bins s) of Inl e \<Rightarrow> Inl e
                     | Inr nb \<Rightarrow> np_setitem2 x b (j * nb) ((j + 1) * nb) row)"
  have inb: "b < nB \<and> j * nb + nb \<le> nb * J" if "b < nB" for b
    using that suc_mult_le [OF j, of nb] by (simp add: mult.commute)
  have dis: "b \<noteq> b' \<or> j * nb + nb \<le> j * nb \<or> j * nb + nb \<le> j * nb" if "b < b'" for b b' :: nat
    using that by simp
  have body: "?body b x = np_setitem2 x b (j * nb) (j * nb + nb) (?v b)" if "b < nB" for b x
    using that bl nb by (simp add: block_row_ok attr_def ac_simps)
  from write_rows_2d [of a nB "nb * J" nB "\<lambda>b. b" "\<lambda>b. j * nb" nb ?body ?v, OF sh inb dis body]
  obtain a' where a': "for_each ?body [0..<nB] a = Inr a'" "shape a' = [nB, nb * J]" "well_shaped a'"
    and w: "\<forall>b<nB. \<forall>k<nb. np_item2 a' b (j * nb + k) = ?v b ! k"
    and u: "\<forall>r<nB. \<forall>c<nb * J. (\<forall>b<nB. \<not> (b = r \<and> j * nb \<le> c \<and> c < j * nb + nb))
              \<longrightarrow> np_item2 a' r c = np_item2 a r c"
    by auto
  have "fill s a bl j = Inr a'"
    using sp nB a'(1) by (simp add: fill_def attr_def)
  moreover have "np_item2 a' b (j * nb + k) = cell bl b k" if "b < nB" "k < nb" for b k
    using w that by simp
  moreover have "np_item2 a' r c = np_item2 a r c"
    if "r < nB" "c < nb * J" "\<not> (j * nb \<le> c \<and> c < (j + 1) * nb)" for r c
  proof -
    have "\<not> (b = r \<and> j * nb \<le> c \<and> c < j * nb + nb)" for b
      using that(3) by auto
    with u that(1,2) show ?thesis by blast
  qed
  ultimately show ?thesis using a'(2,3) sh by auto
qed

lemma fill_wavelets:
  assumes sp: "split s = Some ''wavelets''" and nb: "n_bins s = Some nb" and nB: "n_blocks s = Some nB"
    and bl: "n_rows bl = nB" "n_cols bl = nb"
    and sh: "shape a = [J, nb * nB]" "well_shaped a" and j: "j < J"
  shows "\<exists>a'. fill s a bl j = Inr a' \<and> shape a' = shape a \<and> well_shaped a'
           \<and> (\<forall>b<nB. \<forall>k<nb. np_item2 a' j (b * nb + k) = cell bl b k)
           \<and> (\<forall>r<J. \<forall>c<nb * nB. r \<noteq> j \<longrightarrow> np_item2 a' r c = np_item2 a r c)"
proof -
  let ?v = "\<lambda>b. map (cell bl b) [0..<nb]"
  let ?body = "\<lambda>b x. case block_row bl b of Inl e \<Rightarrow> Inl e
                 | Inr row \<Rightarrow> (case attr (n_bins s) of Inl e \<Rightarrow> Inl e
                     | Inr nb \<Rightarrow> np_setitem2 x j (b * nb) ((b + 1) * nb) row)"
  have inb: "j < J \<and> b * nb + nb \<le> nb * nB" if "b < nB" for b
    using j suc_mult_le [OF that, of nb] by (simp add: mult.commute)
  have dis: "j \<noteq> j \<or> b * nb + nb \<le> b' * nb \<or> b' * nb + nb \<le> b * nb" if "b < b'" for b b'
    using suc_mult_le [OF that, of nb] by simp
  have body: "?body b x = np_setitem2 x j (b * nb) (b * nb + nb) (?v b)" if "b < nB" for b x
    using that bl nb by (simp add: block_row_ok attr_def ac_simps)
  from write_rows_2d [of a J "nb * nB" nB "\<lambda>b. j" "\<lambda>b. b * nb" nb ?body ?v, OF sh inb dis body]
  obtain a' where a': "for_each ?body [0..<nB] a = Inr a'" "shape a' = [J, nb * nB]" "well_shaped a'"
    and w: "\<forall>b<nB. \<forall>k<nb. np_item2 a' j (b * nb + k) = ?v b ! k"
    and u: "\<forall>r<J. \<forall>c<nb * nB. (\<forall>b<nB. \<not> (j = r \<and> b * nb \<le> c \<and> c < b * nb + nb))
              \<longrightarrow> np_item2 a' r c = np_item2 a r c"
    by auto
  have "fill s a bl j = Inr a'"
    using sp nB a'(1) by (simp add: fill_def attr_def)
  moreover have "np_item2 a' j (b * nb + k) = cell bl b k" if "b < nB" "k < nb" for b k
    using w that by simp
  moreover have "np_item2 a' r c = np_item2 a r c" if "r < J" "c < nb * nB" "r \<noteq> j" for r c
    using u that by auto
  ultimately show ?thesis using a'(2,3) sh by auto
qed

lemma fill_both:
  assumes sp: "split s = Some ''both''" and nb: "n_bins s = Some nb" and nB: "n_blocks s = Some nB"
    and bl: "n_rows bl = nB" "n_cols bl = nb"
    and sh: "shape a = [J * nB, nb]" "well_shaped a" and j: "j < J"
  shows "\<exists>a'. fill s a bl j = Inr a' \<and> shape a' = shape a \<and> well_shaped a'
           \<and> (\<forall>b<nB. \<forall>k<nb. np_item2 a' (j * nB + b) k = cell bl b k)
           \<and> (\<forall>r<J * nB. \<forall>c<nb. \<not> (j * nB \<le> r \<and> r < (j + 1) * nB)
                  \<longrightarrow> np_item2 a' r c = np_item2 a r c)"
proof -
  let ?v = "\<lambda>b. map (cell bl b) [0..<nb]"
  let ?body = "\<lambda>b x. case block_row bl b of Inl e \<Rightarrow> Inl e
                 | Inr row \<Rightarrow> (case attr (n_bins s) of Inl e \<Rightarrow> Inl e
                     | Inr nb \<Rightarrow> np_setitem2 x (j * nB + b) 0 nb row)"
  have inb: "j * nB + b < J * nB \<and> 0 + nb \<le> nb" if "b < nB" for b
    using flat_index_bound [OF j that] by simp
  have dis: "j * nB + b \<noteq> j * nB + b' \<or> 0 + nb \<le> (0::nat) \<or> 0 + nb \<le> (0::nat)" if "b < b'" for b b'
    using that by simp
  have body: "?body b x = np_setitem2 x (j * nB + b) 0 (0 + nb) (?v b)" if "b < nB" for b x
    using that bl nb by (simp add: block_row_ok attr_def)
  from write_rows_2d [of a "J * nB" nb nB "\<lambda>b. j * nB + b" "\<lambda>b. 0" nb ?body ?v, OF sh inb dis body]
  obtain a' where a': "for_each ?body [0..<nB] a = Inr a'" "shape a' = [J * nB, nb]" "well_shaped a'"
    and w: "\<forall>b<nB. \<forall>k<nb. np_item2 a' (j * nB + b) (0 + k) = ?v b ! k"
    and u: "\<forall>r<J * nB. \<forall>c<nb. (\<forall>b<nB. \<not> (j * nB + b = r \<and> 0 \<le> c \<and> c < 0 + nb))
              \<longrightarrow> np_item2 a' r c = np_item2 a r c"
    by auto
  have "fill s a bl j = Inr a'"
    using sp nB a'(1) by (simp add: fill_def attr_def)
  moreover have "np_item2 a' (j * nB + b) k = cell bl b k" if "b < nB" "k < nb" for b k
    using w that by simp
  moreover have "np_item2 a' r c = np_item2 a r c"
    if "r < J * nB" "c < nb" "\<not> (j * nB \<le> r \<and> r < (j + 1) * nB)" for r c
  proof -
    have "\<not> (j * nB + b = r \<and> 0 \<le> c \<and> c < 0 + nb)" if "b < nB" for b
      using that \<open>\<not> (j * nB \<le> r \<and> r < (j + 1) * nB)\<close> by auto
    with u that(1,2) show ?thesis by blast
  qed
  ultimately show ?thesis using a'(2,3) sh by auto
qed

lemma layout_shape_cases:
  assumes "layout_shape sp nB nb J = Inr shp"
  obtains "sp = None" "shp = [nB * nb * J]"
  | "sp = Some ''blocks''" "shp = [nB, nb * J]"
  | "sp = Some ''wavelets''" "shp = [J, nb * nB]"
  | "sp = Some ''both''" "shp = [J * nB, nb]"
  using assms unfolding layout_shape_def by (auto split: if_splits)

lemma fill_effect:
  assumes nb: "n_bins s = Some nb" and nB: "n_blocks s = Some nB"
    and bl: "n_rows bl = nB" "n_cols bl = nb"
    and j: "j < J"
    and lay: "layout_shape (split s) nB nb J = Inr (shape a)" and well_shaped: "well_shaped a"
  shows "\<exists>a'. fill s a bl j = Inr a' \<and> shape a' = shape a \<and> well_shaped a'
     \<and> (split s = None \<longrightarrow>
          (\<forall>b<nB. \<forall>k<nb. data a' ! (j * nb * nB + b * nb + k) = cell bl b k)
          \<and> (\<forall>i<nB * nb * J. i < j * nb * nB \<or> (j + 1) * nb * nB \<le> i \<longrightarrow> data a' ! i = data a ! i))
     \<and> (split s = Some ''blocks'' \<longrightarrow>
          (\<forall>b<nB. \<forall>k<nb. np_item2 a' b (j * nb + k) = cell bl b k)
          \<and> (\<forall>r<nB. \<forall>c<nb * J. \<not> (j * nb \<le> c \<and> c < (j + 1) * nb)
                 \<longrightarrow> np_item2 a' r c = np_item2 a r c))
     \<and> (split s = Some ''wavelets'' \<longrightarrow>
          (\<forall>b<nB. \<forall>k<nb. np_item2 a' j (b * nb + k) = cell bl b k)
          \<and> (\<forall>r<J. \<forall>c<nb * nB. r \<noteq> j \<longrightarrow> np_item2 a' r c = np_item2 a r c))
     \<and> (split s = Some ''both'' \<longrightarrow>
          (\<forall>b<nB. \<forall>k<nb. np_item2 a' (j * nB + b) k = cell bl b k)
          \<and> (\<forall>r<J * nB. \<forall>c<nb. \<not> (j * nB \<le> r \<and> r < (j + 1) * nB)
                 \<longrightarrow> np_item2 a' r c = np_item2 a r c))"
  using lay
proof (cases rule: layout_shape_cases)
  case 1
  from fill_flat [OF 1(1) nb nB bl 1(2) well_shaped j] 1(1) show ?thesis by auto
next
  case 2
  from fill_blocks [OF 2(1) nb nB bl 2(2) well_shaped j] 2(1) show ?thesis by auto
next
  case 3
  from fill_wavelets [OF 3(1) nb nB bl 3(2) well_shaped j] 3(1) show ?thesis by auto
next
  case 4
  from fill_both [OF 4(1) nb nB bl 4(2) well_shaped j] 4(1) show ?thesis by auto
qed

subsection \<open>The buffer and the planes\<close>

lemma np_getitem_response:
  "j < number_of_wavelets g \<Longrightarrow> np_getitem (response E g im) j = Inr (response_plane E g im j)"
  by (simp add: np_getitem_def response_def response_plane_def)

lemma shape_two: "length xs = 2 \<Longrightarrow> xs = [xs ! 0, xs ! 1]"
  by (cases xs; cases "tl xs") auto

lemma shape_three:
  assumes "length xs = 3" "take 2 (drop 1 xs) = ys"
  shows "xs = xs ! 0 # ys"
proof -
  from assms(1) obtain a b c where "xs = [a, b, c]"
    by (cases xs; cases "tl xs"; cases "tl (tl xs)") auto
  with assms(2) show ?thesis by auto
qed

lemma transform_buffer:
  "shape buf = number_of_wavelets g # shape (pixels im) \<Longrightarrow> transform E g im buf = response E g im"
  by (simp add: transform_def response_def)

lemma call_dense_valid:
  assumes "ndim (pixels im) = 2" "im_dtype im = Float64" "buffer_ok s"
  shows "call_dense E s im =
           wavelet_loop E (jet_length s) (s\<lparr> trafo_image := Some (response E (gwt s) im) \<rparr>)
             None [] [0..<number_of_wavelets (gwt s)]"
proof -
  let ?W = "number_of_wavelets (gwt s)"
  let ?fresh = "np_ndarray (mem_complex E) [?W, shape (pixels im) ! 0, shape (pixels im) ! 1]"
  let ?buf = "case trafo_image s of None \<Rightarrow> ?fresh
                | Some t \<Rightarrow> if take 2 (drop 1 (shape t)) \<noteq> shape (pixels im) then ?fresh else t"
  have two: "shape (pixels im) = [shape (pixels im) ! 0, shape (pixels im) ! 1]"
    using assms(1) shape_two by (simp add: ndim_def)
  have fresh: "shape ?fresh = ?W # shape (pixels im)"
    using two by (simp add: np_ndarray_def)
  have "shape ?buf = ?W # shape (pixels im)"
  proof (cases "trafo_image s")
    case None
    then show ?thesis using fresh by simp
  next
    case (Some t)
    show ?thesis
    proof (cases "take 2 (drop 1 (shape t)) = shape (pixels im)")
      case True
      from assms(3) Some have "length (shape t) = 3" "shape t ! 0 = ?W"
        by (simp_all add: buffer_ok_def)
      with shape_three [OF this(1) True] Some True show ?thesis by simp
    next
      case False
      with Some fresh show ?thesis by simp
    qed
  qed
  then have eq: "transform E (gwt s) im ?buf = response E (gwt s) im"
    by (rule transform_buffer)
  show ?thesis
    unfolding call_dense_def Let_def eq using assms(1,2) by (simp add: jet_length_def)
qed

subsection \<open>The loop over the wavelets\<close>

lemma well_shaped_np_ndarray: "well_shaped (np_ndarray mem shp)"
  by (simp add: well_shaped_def np_ndarray_def)

lemma shape_np_ndarray: "shape (np_ndarray mem shp) = shp"
  by (simp add: np_ndarray_def)

lemma region_inside:
  assumes "b < (nB::nat)" "k < (nb::nat)"
  shows "j * nb * nB + b * nb + k < (j + 1) * nb * nB"
proof -
  have "b * nb + k < nB * nb" by (rule flat_index_bound [OF assms])
  then show ?thesis by (simp add: algebra_simps)
qed

lemma region_below: "j < j' \<Longrightarrow> (j + 1) * nb * nB \<le> j' * nb * (nB::nat)"
proof -
  assume "j < j'"
  then have "Suc j * (nb * nB) \<le> j' * (nb * nB)" by (intro mult_le_mono1) simp
  then show ?thesis by (simp only: mult.assoc Suc_eq_plus1)
qed

lemma region_top: "j < J \<Longrightarrow> (j + 1) * nb * nB \<le> nB * nb * (J::nat)"
  using region_below [of j J nb nB] by (simp add: mult.commute mult.left_commute)

text \<open>One wavelet, under counts that agree.\<close>

lemma wavelet_pass_agreeing_at:
  fixes s :: extractor
  defines "W \<equiv> number_of_wavelets (gwt s)"
  assumes t: "trafo_image s = Some (response E (gwt s) im)" and j: "j < W"
    and ab: "n_rows (abs_blocks_of E s im j) = nB" "n_cols (abs_blocks_of E s im j) = nb"
    and pb: "use_phases s \<Longrightarrow>
               n_rows (phase_blocks_of E s im j) = nB \<and> n_cols (phase_blocks_of E s im j) = nb"
    and lay: "layout_shape (split s) nB nb (jet_length s) = Inr shp"
    and arr: "\<And>a. arr = Some a \<Longrightarrow> shape a = shp \<and> well_shaped a"
  shows "\<exists>a'. wavelet_pass E (jet_length s) s arr tr j =
            (Inr a', s\<lparr> n_bins := Some nb, n_blocks := Some nB \<rparr>,
             tr @ fills_of s j)
          \<and> shape a' = shp \<and> well_shaped a'
          \<and> (split s = None \<longrightarrow>
               (\<forall>b<nB. \<forall>k<nb. data a' ! (j * nb * nB + b * nb + k) = cell (abs_blocks_of E s im j) b k)
               \<and> (use_phases s \<longrightarrow>
                    (\<forall>b<nB. \<forall>k<nb. data a' ! ((j + W) * nb * nB + b * nb + k)
                                       = cell (phase_blocks_of E s im j) b k))
               \<and> (\<forall>a. arr = Some a \<longrightarrow>
                    (\<forall>i<nB * nb * jet_length s.
                       (i < j * nb * nB \<or> (j + 1) * nb * nB \<le> i)
                       \<and> (i < (j + W) * nb * nB \<or> (j + W + 1) * nb * nB \<le> i)
                       \<longrightarrow> data a' ! i = data a ! i)))"
proof -
  let ?J = "jet_length s"
  let ?s1 = "s\<lparr> n_bins := Some nb, n_blocks := Some nB \<rparr>"
  let ?ab = "abs_blocks_of E s im j" and ?pb = "phase_blocks_of E s im j"
  let ?a0 = "case arr of None \<Rightarrow> np_ndarray (mem_float E) shp | Some a \<Rightarrow> a"
  have plane: "np_getitem (response E (gwt s) im) j = Inr (response_plane E (gwt s) im j)"
    using j unfolding W_def by (rule np_getitem_response)
  have abs_eq: "lbphs E (np_abs (response_plane E (gwt s) im j)) (lbp s) (block_size s) (block_overlap s) = ?ab"
    by (simp add: abs_blocks_of_def)
  have ph_eq: "lbphs E (np_angle (response_plane E (gwt s) im j)) (lbp s) (block_size s) (block_overlap s) = ?pb"
    by (simp add: phase_blocks_of_def)
  have a0: "shape ?a0 = shp" "well_shaped ?a0"
    using arr by (cases arr; simp add: shape_np_ndarray well_shaped_np_ndarray)+
  have jJ: "j < ?J" using j by (simp add: jet_length_def W_def)
  have s1: "n_bins ?s1 = Some nb" "n_blocks ?s1 = Some nB" "split ?s1 = split s" by simp_all
  from fill_effect [of ?s1 nb nB ?ab j ?J ?a0, OF s1(1,2) ab jJ] lay a0
  obtain a1 where a1: "fill ?s1 ?a0 ?ab j = Inr a1" "shape a1 = shp" "well_shaped a1"
    and c1: "split s = None \<Longrightarrow>
          (\<forall>b<nB. \<forall>k<nb. data a1 ! (j * nb * nB + b * nb + k) = cell ?ab b k)
          \<and> (\<forall>i<nB * nb * ?J. i < j * nb * nB \<or> (j + 1) * nb * nB \<le> i \<longrightarrow> data a1 ! i = data ?a0 ! i)"
    by auto
  show ?thesis
  proof (cases "use_phases s")
    case False
    have "wavelet_pass E ?J s arr tr j = (Inr a1, ?s1, tr @ fills_of s j)"
      using t plane ab lay a1(1) False
      by (simp add: wavelet_pass_def Let_def abs_eq fills_of_def)
    moreover have "data a1 ! i = data a ! i"
      if "split s = None" "arr = Some a" "i < nB * nb * ?J" "i < j * nb * nB \<or> (j + 1) * nb * nB \<le> i" for a i
    proof -
      from that(2) have e: "?a0 = a" by simp
      from c1 [OF that(1)] that(3,4) have "data a1 ! i = data ?a0 ! i" by blast
      with e show ?thesis by simp
    qed
    ultimately show ?thesis using a1(2,3) c1 False by auto
  next
    case True
    let ?k = "j + W"
    have kJ: "?k < ?J" using j True by (simp add: jet_length_def W_def)
    from pb [OF True] have pbs: "n_rows ?pb = nB" "n_cols ?pb = nb" by simp_all
    from fill_effect [of ?s1 nb nB ?pb ?k ?J a1, OF s1(1,2) pbs kJ] lay a1(2,3)
    obtain a2 where a2: "fill ?s1 a1 ?pb ?k = Inr a2" "shape a2 = shp" "well_shaped a2"
      and c2: "split s = None \<Longrightarrow>
          (\<forall>b<nB. \<forall>k<nb. data a2 ! (?k * nb * nB + b * nb + k) = cell ?pb b k)
          \<and> (\<forall>i<nB * nb * ?J. i < ?k * nb * nB \<or> (?k + 1) * nb * nB \<le> i \<longrightarrow> data a2 ! i = data a1 ! i)"
      by auto
    have "wavelet_pass E ?J s arr tr j = (Inr a2, ?s1, tr @ fills_of s j)"
      using t plane ab lay a1(1) a2(1) True
      by (simp add: wavelet_pass_def Let_def abs_eq ph_eq W_def fills_of_def)
    moreover have "data a2 ! (j * nb * nB + b * nb + k) = cell ?ab b k"
      if sp: "split s = None" and bk: "b < nB" "k < nb" for b k
    proof -
      let ?i = "j * nb * nB + b * nb + k"
      have below: "?i < (j + 1) * nb * nB" using bk by (rule region_inside)
      have "j < ?k" using j by simp
      then have i1: "?i < ?k * nb * nB"
        by (rule less_le_trans [OF below region_below])
      have i2: "?i < nB * nb * ?J"
        by (rule less_le_trans [OF below region_top [OF jJ]])
      from c2 [OF sp] i1 i2 have "data a2 ! ?i = data a1 ! ?i" by blast
      with c1 [OF sp] bk show ?thesis by simp
    qed
    moreover have "data a2 ! i = data a ! i"
      if "split s = None" "arr = Some a" "i < nB * nb * ?J"
        "i < j * nb * nB \<or> (j + 1) * nb * nB \<le> i"
        "i < ?k * nb * nB \<or> (?k + 1) * nb * nB \<le> i" for a i
    proof -
      from c2 [OF that(1)] that(3,5) have "data a2 ! i = data a1 ! i" by blast
      also from c1 [OF that(1)] that(3,4) have "data a1 ! i = data ?a0 ! i" by blast
      also from that(2) have "?a0 = a" by simp
      finally show ?thesis .
    qed
    ultimately show ?thesis using a2(2,3) c2 True by auto
  qed
qed


lemma blocks_of_counted [simp]:
  "abs_blocks_of E (s\<lparr> n_bins := x, n_blocks := y \<rparr>) im j = abs_blocks_of E s im j"
  "phase_blocks_of E (s\<lparr> n_bins := x, n_blocks := y \<rparr>) im j = phase_blocks_of E s im j"
  "jet_length (s\<lparr> n_bins := x, n_blocks := y \<rparr>) = jet_length s"
  "fills_of (s\<lparr> n_bins := x, n_blocks := y \<rparr>) j = fills_of s j"
  by (simp_all add: abs_blocks_of_def phase_blocks_of_def jet_length_def fills_of_def)

lemma wavelet_pass_agreeing:
  fixes s :: extractor
  defines "W \<equiv> number_of_wavelets (gwt s)"
  assumes st: "st = s \<or> st = s\<lparr> n_bins := Some nb, n_blocks := Some nB \<rparr>"
    and t: "trafo_image s = Some (response E (gwt s) im)" and j: "j < W"
    and ab: "n_rows (abs_blocks_of E s im j) = nB" "n_cols (abs_blocks_of E s im j) = nb"
    and pb0: "use_phases s \<longrightarrow>
               n_rows (phase_blocks_of E s im j) = nB \<and> n_cols (phase_blocks_of E s im j) = nb"
    and lay: "layout_shape (split s) nB nb (jet_length s) = Inr shp"
    and arr0: "\<forall>a. arr = Some a \<longrightarrow> shape a = shp \<and> well_shaped a"
  shows "\<exists>a'. wavelet_pass E (jet_length s) st arr tr j =
            (Inr a', s\<lparr> n_bins := Some nb, n_blocks := Some nB \<rparr>, tr @ fills_of s j)
          \<and> shape a' = shp \<and> well_shaped a'
          \<and> (split s = None \<longrightarrow>
               (\<forall>b<nB. \<forall>k<nb. data a' ! (j * nb * nB + b * nb + k) = cell (abs_blocks_of E s im j) b k)
               \<and> (use_phases s \<longrightarrow>
                    (\<forall>b<nB. \<forall>k<nb. data a' ! ((j + W) * nb * nB + b * nb + k)
                                       = cell (phase_blocks_of E s im j) b k))
               \<and> (\<forall>a. arr = Some a \<longrightarrow>
                    (\<forall>i<nB * nb * jet_length s.
                       (i < j * nb * nB \<or> (j + 1) * nb * nB \<le> i)
                       \<and> (i < (j + W) * nb * nB \<or> (j + W + 1) * nb * nB \<le> i)
                       \<longrightarrow> data a' ! i = data a ! i)))"
proof -
  let ?s' = "s\<lparr> n_bins := Some nb, n_blocks := Some nB \<rparr>"
  from pb0 have pb: "use_phases s \<Longrightarrow>
      n_rows (phase_blocks_of E s im j) = nB \<and> n_cols (phase_blocks_of E s im j) = nb"
    by simp
  from arr0 have arr: "\<And>a. arr = Some a \<Longrightarrow> shape a = shp \<and> well_shaped a" by simp
  from st show ?thesis
  proof
    assume "st = s"
    then show ?thesis
      using wavelet_pass_agreeing_at [of s E im j nB nb shp arr tr, OF t j [unfolded W_def] ab pb lay arr]
      unfolding W_def by simp
  next
    assume e: "st = ?s'"
    have t': "trafo_image ?s' = Some (response E (gwt ?s') im)" using t by simp
    have j': "j < number_of_wavelets (gwt ?s')" using j by (simp add: W_def)
    have ab': "n_rows (abs_blocks_of E ?s' im j) = nB" "n_cols (abs_blocks_of E ?s' im j) = nb"
      using ab by simp_all
    have pb': "use_phases ?s' \<Longrightarrow>
        n_rows (phase_blocks_of E ?s' im j) = nB \<and> n_cols (phase_blocks_of E ?s' im j) = nb"
      using pb by simp
    have lay': "layout_shape (split ?s') nB nb (jet_length ?s') = Inr shp" using lay by simp
    have red: "gwt ?s' = gwt s" "split ?s' = split s" "use_phases ?s' = use_phases s"
      "?s'\<lparr> n_bins := Some nb, n_blocks := Some nB \<rparr> = ?s'"
      by simp_all
    show ?thesis
      using wavelet_pass_agreeing_at [of ?s' E im j nB nb shp arr tr, OF t' j' ab' pb' lay' arr]
      unfolding e W_def red blocks_of_counted .
  qed
qed

lemma wavelet_loop_snoc:
  "wavelet_loop E J s arr tr (js @ [j]) =
     (case wavelet_loop E J s arr tr js of
        (Inl e, s', tr') \<Rightarrow> (Inl e, s', tr')
      | (Inr r, s', tr') \<Rightarrow>
          (case wavelet_pass E J s' r tr' j of
             (Inl e, s'', tr'') \<Rightarrow> (Inl e, s'', tr'')
           | (Inr a, s'', tr'') \<Rightarrow> (Inr (Some a), s'', tr'')))"
  by (induction js arbitrary: s arr tr) (simp_all split: prod.splits sum.splits)

lemma wavelet_loop_agreeing:
  fixes s :: extractor
  assumes t: "trafo_image s = Some (response E (gwt s) im)"
    and agree: "\<And>j. j < number_of_wavelets (gwt s) \<Longrightarrow>
        n_rows (abs_blocks_of E s im j) = nB \<and> n_cols (abs_blocks_of E s im j) = nb
        \<and> (use_phases s \<longrightarrow>
             n_rows (phase_blocks_of E s im j) = nB \<and> n_cols (phase_blocks_of E s im j) = nb)"
    and lay: "layout_shape (split s) nB nb (jet_length s) = Inr shp"
  shows "Suc m \<le> number_of_wavelets (gwt s) \<Longrightarrow>
     \<exists>a. wavelet_loop E (jet_length s) s None [] [0..<Suc m] =
            (Inr (Some a), s\<lparr> n_bins := Some nb, n_blocks := Some nB \<rparr>,
             concat (map (fills_of s) [0..<Suc m]))
        \<and> shape a = shp \<and> well_shaped a
        \<and> (split s = None \<longrightarrow>
             (\<forall>j<Suc m. \<forall>b<nB. \<forall>k<nb.
                data a ! (j * nb * nB + b * nb + k) = cell (abs_blocks_of E s im j) b k
                \<and> (use_phases s \<longrightarrow>
                     data a ! ((j + number_of_wavelets (gwt s)) * nb * nB + b * nb + k)
                       = cell (phase_blocks_of E s im j) b k)))"
proof (induction m)
  case 0
  let ?W = "number_of_wavelets (gwt s)"
  from 0 have j: "0 < ?W" by simp
  from agree [OF j] have ab: "n_rows (abs_blocks_of E s im 0) = nB" "n_cols (abs_blocks_of E s im 0) = nb"
    and pb: "use_phases s \<longrightarrow> n_rows (phase_blocks_of E s im 0) = nB \<and> n_cols (phase_blocks_of E s im 0) = nb"
    by blast+
  have arr: "\<forall>a. None = Some a \<longrightarrow> shape a = shp \<and> well_shaped a" by simp
  have st0: "s = s \<or> s = s\<lparr> n_bins := Some nb, n_blocks := Some nB \<rparr>" by simp
  from wavelet_pass_agreeing [where st = s and s = s and nb = nb and nB = nB and j = 0
      and arr = None and tr = "[]", OF st0 t j ab pb lay arr]
  obtain a where a: "wavelet_pass E (jet_length s) s None [] 0 =
            (Inr a, s\<lparr> n_bins := Some nb, n_blocks := Some nB \<rparr>, [] @ fills_of s 0)"
      "shape a = shp" "well_shaped a"
    and c: "split s = None \<longrightarrow>
               (\<forall>b<nB. \<forall>k<nb. data a ! (0 * nb * nB + b * nb + k) = cell (abs_blocks_of E s im 0) b k)
               \<and> (use_phases s \<longrightarrow>
                    (\<forall>b<nB. \<forall>k<nb. data a ! ((0 + ?W) * nb * nB + b * nb + k)
                                       = cell (phase_blocks_of E s im 0) b k))
               \<and> (\<forall>a'. None = Some a' \<longrightarrow>
                    (\<forall>i<nB * nb * jet_length s.
                       (i < 0 * nb * nB \<or> (0 + 1) * nb * nB \<le> i)
                       \<and> (i < (0 + ?W) * nb * nB \<or> (0 + ?W + 1) * nb * nB \<le> i)
                       \<longrightarrow> data a ! i = data a' ! i))"
    by (elim exE conjE) (rule that; assumption)
  have L: "wavelet_loop E (jet_length s) s None [] [0..<Suc 0] =
            (Inr (Some a), s\<lparr> n_bins := Some nb, n_blocks := Some nB \<rparr>,
             concat (map (fills_of s) [0..<Suc 0]))"
    using a(1) by simp
  have D: "split s = None \<longrightarrow> (\<forall>j<Suc 0. \<forall>b<nB. \<forall>k<nb.
                data a ! (j * nb * nB + b * nb + k) = cell (abs_blocks_of E s im j) b k
                \<and> (use_phases s \<longrightarrow>
                     data a ! ((j + ?W) * nb * nB + b * nb + k) = cell (phase_blocks_of E s im j) b k))"
    using c by simp
  from L a(2,3) D show ?case by (intro exI [of _ a] conjI)
next
  case (Suc m)
  let ?W = "number_of_wavelets (gwt s)"
  let ?s' = "s\<lparr> n_bins := Some nb, n_blocks := Some nB \<rparr>"
  let ?j = "Suc m"
  let ?tr = "concat (map (fills_of s) [0..<Suc m])"
  from Suc.prems have j: "?j < ?W" and "Suc m \<le> ?W" by simp_all
  from Suc.IH [OF this(2)] obtain a where
    a: "wavelet_loop E (jet_length s) s None [] [0..<Suc m] = (Inr (Some a), ?s', ?tr)"
      "shape a = shp" "well_shaped a"
    and c: "split s = None \<longrightarrow>
             (\<forall>j<Suc m. \<forall>b<nB. \<forall>k<nb.
                data a ! (j * nb * nB + b * nb + k) = cell (abs_blocks_of E s im j) b k
                \<and> (use_phases s \<longrightarrow>
                     data a ! ((j + ?W) * nb * nB + b * nb + k) = cell (phase_blocks_of E s im j) b k))"
    by (elim exE conjE) (rule that; assumption)
  from agree [OF j] have ab: "n_rows (abs_blocks_of E s im ?j) = nB" "n_cols (abs_blocks_of E s im ?j) = nb"
    and pb: "use_phases s \<longrightarrow> n_rows (phase_blocks_of E s im ?j) = nB \<and> n_cols (phase_blocks_of E s im ?j) = nb"
    by blast+
  have arr: "\<forall>x. Some a = Some x \<longrightarrow> shape x = shp \<and> well_shaped x" using a(2,3) by simp
  have st1: "?s' = s \<or> ?s' = ?s'" by simp
  from wavelet_pass_agreeing [where st = ?s' and s = s and nb = nb and nB = nB and j = ?j
      and arr = "Some a" and tr = ?tr, OF st1 t j ab pb lay arr]
  obtain a' where a': "wavelet_pass E (jet_length s) ?s' (Some a) ?tr ?j = (Inr a', ?s', ?tr @ fills_of s ?j)"
      "shape a' = shp" "well_shaped a'"
    and c': "split s = None \<longrightarrow>
               (\<forall>b<nB. \<forall>k<nb. data a' ! (?j * nb * nB + b * nb + k) = cell (abs_blocks_of E s im ?j) b k)
               \<and> (use_phases s \<longrightarrow>
                    (\<forall>b<nB. \<forall>k<nb. data a' ! ((?j + ?W) * nb * nB + b * nb + k)
                                       = cell (phase_blocks_of E s im ?j) b k))
               \<and> (\<forall>x. Some a = Some x \<longrightarrow>
                    (\<forall>i<nB * nb * jet_length s.
                       (i < ?j * nb * nB \<or> (?j + 1) * nb * nB \<le> i)
                       \<and> (i < (?j + ?W) * nb * nB \<or> (?j + ?W + 1) * nb * nB \<le> i)
                       \<longrightarrow> data a' ! i = data x ! i))"
    by (elim exE conjE) (rule that; assumption)
  have keep: "data a' ! i = data a ! i"
    if "split s = None" "i < nB * nb * jet_length s"
      "i < ?j * nb * nB \<or> (?j + 1) * nb * nB \<le> i"
      "i < (?j + ?W) * nb * nB \<or> (?j + ?W + 1) * nb * nB \<le> i" for i
  proof -
    note cs = c' [THEN mp, OF that(1)]
    note z = cs [THEN conjunct2, THEN conjunct2, THEN spec, of a, THEN mp, OF refl, rule_format]
    show ?thesis using that(3,4) by (intro z [OF that(2)] conjI)
  qed
  have new_abs: "data a' ! (?j * nb * nB + b * nb + k) = cell (abs_blocks_of E s im ?j) b k"
    if "split s = None" "b < nB" "k < nb" for b k
    by (rule c' [THEN mp, OF that(1), THEN conjunct1, rule_format, OF that(2,3)])
  have new_phase: "data a' ! ((?j + ?W) * nb * nB + b * nb + k) = cell (phase_blocks_of E s im ?j) b k"
    if "split s = None" "use_phases s" "b < nB" "k < nb" for b k
    by (rule c' [THEN mp, OF that(1), THEN conjunct2, THEN conjunct1, rule_format, OF that(2,3,4)])
  have old_abs: "data a ! (i * nb * nB + b * nb + k) = cell (abs_blocks_of E s im i) b k"
    if "split s = None" "i < Suc m" "b < nB" "k < nb" for i b k
    by (rule c [THEN mp, OF that(1), rule_format, OF that(2,3,4), THEN conjunct1])
  have old_phase: "data a ! ((i + ?W) * nb * nB + b * nb + k) = cell (phase_blocks_of E s im i) b k"
    if "split s = None" "use_phases s" "i < Suc m" "b < nB" "k < nb" for i b k
    by (rule c [THEN mp, OF that(1), rule_format, OF that(3,4,5), THEN conjunct2, THEN mp, OF that(2)])
  have "wavelet_loop E (jet_length s) s None [] ([0..<Suc m] @ [?j]) =
            (Inr (Some a'), ?s', ?tr @ fills_of s ?j)"
    using a(1) a'(1) by (simp only: wavelet_loop_snoc prod.case sum.case)
  then have L: "wavelet_loop E (jet_length s) s None [] [0..<Suc ?j] =
            (Inr (Some a'), ?s', concat (map (fills_of s) [0..<Suc ?j]))"
    by simp
  have cells: "data a' ! (i * nb * nB + b * nb + k) = cell (abs_blocks_of E s im i) b k
                \<and> (use_phases s \<longrightarrow>
                     data a' ! ((i + ?W) * nb * nB + b * nb + k) = cell (phase_blocks_of E s im i) b k)"
    if sp: "split s = None" and i: "i < Suc ?j" and bk: "b < nB" "k < nb" for i b k
  proof (cases "i = ?j")
    case True
    with new_abs [OF sp bk] new_phase [OF sp _ bk] show ?thesis by simp
  next
    case False
    with i have lt: "i < ?j" by simp
    have iJ: "i < jet_length s" using lt j by (simp add: jet_length_def)
    let ?p = "i * nb * nB + b * nb + k"
    have p1: "?p < (i + 1) * nb * nB" by (rule region_inside [OF bk])
    have p2: "?p < ?j * nb * nB" by (rule less_le_trans [OF p1 region_below [OF lt]])
    have "i < ?j + ?W" using lt by simp
    then have p3: "?p < (?j + ?W) * nb * nB" by (rule less_le_trans [OF p1 region_below])
    have p4: "?p < nB * nb * jet_length s" by (rule less_le_trans [OF p1 region_top [OF iJ]])
    have "data a' ! ?p = data a ! ?p" using keep [OF sp p4] p2 p3 by blast
    moreover have "data a ! ?p = cell (abs_blocks_of E s im i) b k" by (rule old_abs [OF sp lt bk])
    ultimately have first: "data a' ! ?p = cell (abs_blocks_of E s im i) b k" by simp
    have second: "data a' ! ((i + ?W) * nb * nB + b * nb + k) = cell (phase_blocks_of E s im i) b k"
      if ph: "use_phases s"
    proof -
      let ?q = "(i + ?W) * nb * nB + b * nb + k"
      have iWJ: "i + ?W < jet_length s" using lt j ph by (simp add: jet_length_def)
      have q1: "?q < (i + ?W + 1) * nb * nB" by (rule region_inside [OF bk])
      have "i + ?W < ?j + ?W" using lt by simp
      then have q2: "?q < (?j + ?W) * nb * nB" by (rule less_le_trans [OF q1 region_below])
      have "?j < i + ?W" using j by simp
      then have "(?j + 1) * nb * nB \<le> (i + ?W) * nb * nB" by (rule region_below)
      then have q3: "(?j + 1) * nb * nB \<le> ?q" by linarith
      have q4: "?q < nB * nb * jet_length s" by (rule less_le_trans [OF q1 region_top [OF iWJ]])
      have "data a' ! ?q = data a ! ?q" using keep [OF sp q4] q2 q3 by blast
      moreover have "data a ! ?q = cell (phase_blocks_of E s im i) b k" by (rule old_phase [OF sp ph lt bk])
      ultimately show ?thesis by simp
    qed
    from first second show ?thesis by blast
  qed
  have D: "split s = None \<longrightarrow>
             (\<forall>j<Suc ?j. \<forall>b<nB. \<forall>k<nb.
                data a' ! (j * nb * nB + b * nb + k) = cell (abs_blocks_of E s im j) b k
                \<and> (use_phases s \<longrightarrow>
                     data a' ! ((j + ?W) * nb * nB + b * nb + k) = cell (phase_blocks_of E s im j) b k))"
    by (intro impI allI) (rule cells)
  from L a'(2,3) D show ?case by (intro exI [of _ a'] conjI)
qed

lemma layout_shape_invalid:
  "sp \<notin> {None, Some ''blocks'', Some ''wavelets'', Some ''both''} \<Longrightarrow> layout_shape sp nB nb J = Inl ValueError"
  by (simp add: layout_shape_def)

lemma layout_shape_valid:
  "sp \<in> {None, Some ''blocks'', Some ''wavelets'', Some ''both''} \<Longrightarrow>
     layout_shape sp nB nb J =
       Inr (if sp = None then [nB * nb * J]
            else if sp = Some ''blocks'' then [nB, nb * J]
            else if sp = Some ''wavelets'' then [J, nb * nB]
            else [J * nB, nb])"
  by (auto simp: layout_shape_def)

text \<open>Whatever a pass does, it leaves the counts of its magnitude plane.\<close>

lemma wavelet_pass_state:
  assumes t: "trafo_image s = Some (response E (gwt s) im)" and j: "j < number_of_wavelets (gwt s)"
  shows "fst (snd (wavelet_pass E J s arr tr j)) =
           s\<lparr> n_bins := Some (n_cols (abs_blocks_of E s im j)),
              n_blocks := Some (n_rows (abs_blocks_of E s im j)) \<rparr>"
  using t np_getitem_response [OF j, of E im]
  by (simp add: wavelet_pass_def Let_def abs_blocks_of_def split: sum.splits)

lemma wavelet_pass_invalid_split:
  assumes t: "trafo_image s = Some (response E (gwt s) im)" and j: "j < number_of_wavelets (gwt s)"
    and sp: "split s \<notin> {None, Some ''blocks'', Some ''wavelets'', Some ''both''}"
  shows "wavelet_pass E J s arr tr j =
           (Inl ValueError,
            s\<lparr> n_bins := Some (n_cols (abs_blocks_of E s im j)),
               n_blocks := Some (n_rows (abs_blocks_of E s im j)) \<rparr>, tr)"
  using t np_getitem_response [OF j, of E im] layout_shape_invalid [OF sp]
  by (simp add: wavelet_pass_def Let_def abs_blocks_of_def)

lemma wavelet_loop_state:
  assumes "trafo_image s = Some (response E (gwt s) im)"
    and "\<forall>j \<in> set js. j < number_of_wavelets (gwt s)" and "js \<noteq> []"
  shows "\<exists>j \<in> set js.
           fst (snd (wavelet_loop E J s arr tr js)) =
             s\<lparr> n_bins := Some (n_cols (abs_blocks_of E s im j)),
                n_blocks := Some (n_rows (abs_blocks_of E s im j)) \<rparr>
           \<and> ((\<exists>r. fst (wavelet_loop E J s arr tr js) = Inr r) \<longrightarrow> j = last js)"
  using assms
proof (induction js arbitrary: s arr tr)
  case Nil
  then show ?case by simp
next
  case (Cons j js)
  let ?s1 = "s\<lparr> n_bins := Some (n_cols (abs_blocks_of E s im j)),
                n_blocks := Some (n_rows (abs_blocks_of E s im j)) \<rparr>"
  from Cons.prems have j: "j < number_of_wavelets (gwt s)" by simp
  obtain res s' tr' where p: "wavelet_pass E J s arr tr j = (res, s', tr')"
    by (cases "wavelet_pass E J s arr tr j") blast
  from wavelet_pass_state [OF Cons.prems(1) j, of J arr tr] p have s': "s' = ?s1" by simp
  show ?case
  proof (cases res)
    case (Inl e)
    with p s' show ?thesis by simp
  next
    case (Inr a)
    show ?thesis
    proof (cases "js = []")
      case True
      with p s' Inr show ?thesis by simp
    next
      case False
      have t1: "trafo_image ?s1 = Some (response E (gwt ?s1) im)" using Cons.prems(1) by simp
      have b1: "\<forall>i \<in> set js. i < number_of_wavelets (gwt ?s1)" using Cons.prems(2) by simp
      from Cons.IH [OF t1 b1 False, of "Some a" tr'] obtain i where i: "i \<in> set js"
        and st: "fst (snd (wavelet_loop E J ?s1 (Some a) tr' js)) =
             ?s1\<lparr> n_bins := Some (n_cols (abs_blocks_of E ?s1 im i)),
                   n_blocks := Some (n_rows (abs_blocks_of E ?s1 im i)) \<rparr>"
        and la: "(\<exists>r. fst (wavelet_loop E J ?s1 (Some a) tr' js) = Inr r) \<longrightarrow> i = last js"
        by blast
      have loop: "wavelet_loop E J s arr tr (j # js) = wavelet_loop E J ?s1 (Some a) tr' js"
        using p s' Inr by simp
      have "fst (snd (wavelet_loop E J s arr tr (j # js))) =
             s\<lparr> n_bins := Some (n_cols (abs_blocks_of E s im i)),
                n_blocks := Some (n_rows (abs_blocks_of E s im i)) \<rparr>"
        unfolding loop st by simp
      moreover have "(\<exists>r. fst (wavelet_loop E J s arr tr (j # js)) = Inr r) \<longrightarrow> i = last (j # js)"
        unfolding loop using la False by simp
      ultimately show ?thesis using i by auto
    qed
  qed
qed

subsection \<open>The call under counts that agree\<close>

lemma blocks_of_buffered [simp]:
  "abs_blocks_of E (s\<lparr> trafo_image := t \<rparr>) im j = abs_blocks_of E s im j"
  "phase_blocks_of E (s\<lparr> trafo_image := t \<rparr>) im j = phase_blocks_of E s im j"
  "jet_length (s\<lparr> trafo_image := t \<rparr>) = jet_length s"
  by (simp_all add: abs_blocks_of_def phase_blocks_of_def jet_length_def)

lemma fills_of_buffered [simp]: "fills_of (s\<lparr> trafo_image := t \<rparr>) = fills_of s"
  by (rule ext) (simp add: fills_of_def)

lemma call_dense_agreeing:
  assumes im: "ndim (pixels im) = 2" "im_dtype im = Float64" and buf: "buffer_ok s"
    and W: "0 < number_of_wavelets (gwt s)"
    and agree: "\<forall>j < number_of_wavelets (gwt s).
        n_rows (abs_blocks_of E s im j) = nB \<and> n_cols (abs_blocks_of E s im j) = nb
        \<and> (use_phases s \<longrightarrow>
             n_rows (phase_blocks_of E s im j) = nB \<and> n_cols (phase_blocks_of E s im j) = nb)"
    and lay: "layout_shape (split s) nB nb (jet_length s) = Inr shp"
  shows "\<exists>a. call_dense E s im =
            (Inr (Some a),
             s\<lparr> trafo_image := Some (response E (gwt s) im), n_bins := Some nb, n_blocks := Some nB \<rparr>,
             concat (map (fills_of s) [0..<number_of_wavelets (gwt s)]))
        \<and> shape a = shp \<and> well_shaped a
        \<and> (split s = None \<longrightarrow>
             (\<forall>j<number_of_wavelets (gwt s). \<forall>b<nB. \<forall>k<nb.
                data a ! (j * nb * nB + b * nb + k) = cell (abs_blocks_of E s im j) b k
                \<and> (use_phases s \<longrightarrow>
                     data a ! ((j + number_of_wavelets (gwt s)) * nb * nB + b * nb + k)
                       = cell (phase_blocks_of E s im j) b k)))"
proof -
  let ?s1 = "s\<lparr> trafo_image := Some (response E (gwt s) im) \<rparr>"
  from W obtain m where m: "number_of_wavelets (gwt s) = Suc m"
    by (cases "number_of_wavelets (gwt s)") simp_all
  have t1: "trafo_image ?s1 = Some (response E (gwt ?s1) im)" by simp
  have agree1: "\<And>j. j < number_of_wavelets (gwt ?s1) \<Longrightarrow>
        n_rows (abs_blocks_of E ?s1 im j) = nB \<and> n_cols (abs_blocks_of E ?s1 im j) = nb
        \<and> (use_phases ?s1 \<longrightarrow>
             n_rows (phase_blocks_of E ?s1 im j) = nB \<and> n_cols (phase_blocks_of E ?s1 im j) = nb)"
    using agree by simp
  have lay1: "layout_shape (split ?s1) nB nb (jet_length ?s1) = Inr shp" using lay by simp
  have m1: "Suc m \<le> number_of_wavelets (gwt ?s1)" using m by simp
  have red: "gwt ?s1 = gwt s" "split ?s1 = split s" "use_phases ?s1 = use_phases s" by simp_all
  note loop = wavelet_loop_agreeing [where s = ?s1 and m = m, OF t1 agree1 lay1 m1,
      unfolded red blocks_of_buffered fills_of_buffered, folded m]
  show ?thesis
    unfolding call_dense_valid [OF im buf] by (rule loop)
qed

lemma call_invalid_split:
  assumes im: "ndim (pixels im) = 2" "im_dtype im = Float64" and buf: "buffer_ok s"
    and W: "0 < number_of_wavelets (gwt s)"
    and sp: "split s \<notin> {None, Some ''blocks'', Some ''wavelets'', Some ''both''}"
  shows "call_dense E s im =
           (Inl ValueError,
            s\<lparr> trafo_image := Some (response E (gwt s) im),
               n_bins := Some (n_cols (abs_blocks_of E s im 0)),
               n_blocks := Some (n_rows (abs_blocks_of E s im 0)) \<rparr>, [])"
proof -
  let ?s1 = "s\<lparr> trafo_image := Some (response E (gwt s) im) \<rparr>"
  have t1: "trafo_image ?s1 = Some (response E (gwt ?s1) im)" by simp
  have j: "0 < number_of_wavelets (gwt ?s1)" using W by simp
  have sp1: "split ?s1 \<notin> {None, Some ''blocks'', Some ''wavelets'', Some ''both''}" using sp by simp
  have up: "[0..<number_of_wavelets (gwt s)] = 0 # [1..<number_of_wavelets (gwt s)]"
    using W by (simp add: upt_conv_Cons)
  show ?thesis
    unfolding call_dense_valid [OF im buf] up
    using wavelet_pass_invalid_split [OF t1 j sp1, of "jet_length s" None "[]"] by simp
qed

lemma call_state: "fst (snd (call E s im)) = fst (snd (call_dense E s im))"
  by (simp add: call_def split: prod.splits sum.splits)

lemma call_error: "fst (call_dense E s im) = Inl e \<Longrightarrow> call E s im = call_dense E s im"
  by (cases "call_dense E s im") (auto simp: call_def)

lemma call_not_sparse:
  "call_dense E s im = (Inr r, s', tr) \<Longrightarrow> \<not> sparse s' \<Longrightarrow> call E s im = (Inr r, s', tr)"
  by (cases r) (simp_all add: call_def sparsify_opt_def sparsify_def)

lemma sparsify_accepts_flat:
  assumes "length (shape x) = 1"
  shows "\<exists>y. sparsify s x = Inr y"
proof -
  obtain ix vs where l: "sparsify_loop (data x) [0..<shape x ! 0] ([], []) = (ix, vs)"
    by (cases "sparsify_loop (data x) [0..<shape x ! 0] ([], [])") blast
  show ?thesis using assms l by (simp add: sparsify_def)
qed

lemma call_dense_state:
  assumes im: "ndim (pixels im) = 2" "im_dtype im = Float64" and buf: "buffer_ok s"
    and W: "0 < number_of_wavelets (gwt s)"
  shows "\<exists>j<number_of_wavelets (gwt s).
           fst (snd (call_dense E s im)) =
             s\<lparr> trafo_image := Some (response E (gwt s) im),
                n_bins := Some (n_cols (abs_blocks_of E s im j)),
                n_blocks := Some (n_rows (abs_blocks_of E s im j)) \<rparr>
           \<and> ((\<exists>r. fst (call_dense E s im) = Inr r) \<longrightarrow> j = number_of_wavelets (gwt s) - 1)"
proof -
  let ?s1 = "s\<lparr> trafo_image := Some (response E (gwt s) im) \<rparr>"
  let ?W = "number_of_wavelets (gwt s)"
  have t1: "trafo_image ?s1 = Some (response E (gwt ?s1) im)" by simp
  have b1: "\<forall>j \<in> set [0..<?W]. j < number_of_wavelets (gwt ?s1)" by simp
  have ne: "[0..<?W] \<noteq> []" using W by simp
  have la: "last [0..<?W] = ?W - 1" using W by (cases ?W) simp_all
  from wavelet_loop_state [OF t1 b1 ne, of "jet_length s" None "[]"]
  show ?thesis
    unfolding call_dense_valid [OF im buf] la by (simp add: Bex_def)
qed

lemmas fixture_defs =
  instance_of_def small_config_def two_wavelets_config_def phase_config_def defaults_def
  unit_image_def agreeing_env_def disagreeing_env_def demo_blocks_def counted_instance_def

lemmas eval_defs =
  call_def call_dense_def wavelet_pass_def Let_def ndim_def number_of_wavelets_def jet_length_def
  np_ndarray_def transform_def np_getitem_def np_abs_def np_angle_def layout_shape_def fill_def
  attr_def block_row_def np_setslice_def np_setitem2_def assign_slots_def broadcast_def
  sparsify_opt_def sparsify_def upt_rec

lemma agreeing_env_counts:
  "n_rows (abs_blocks_of agreeing_env s im j) = 2" "n_cols (abs_blocks_of agreeing_env s im j) = 2"
  "n_rows (phase_blocks_of agreeing_env s im j) = 2" "n_cols (phase_blocks_of agreeing_env s im j) = 2"
  by (simp_all add: abs_blocks_of_def phase_blocks_of_def agreeing_env_def)

lemma unit_image_valid: "ndim (pixels unit_image) = 2" "im_dtype unit_image = Float64"
  by (simp_all add: unit_image_def ndim_def)

lemma fresh_instance:
  "buffer_ok (instance_of c)" "gwt (instance_of c) = \<lparr> number_of_scales = gabor_scales c,
               number_of_directions = gabor_directions c,
               sigma = gabor_sigma c,
               k_max = gabor_maximum_frequency c,
               k_fac = gabor_frequency_step c,
               power_of_k = gabor_power_of_k c,
               dc_free = gabor_dc_free c \<rparr>"
  "split (instance_of c) = split_histogram c" "sparse (instance_of c) = sparse_histogram c"
  "use_phases (instance_of c) = use_gabor_phases c"
  by (simp_all add: buffer_ok_def instance_of_def)

lemma one_wavelet:
  "number_of_wavelets (gwt (instance_of small_config)) = 1"
  "number_of_wavelets (gwt (instance_of both_config)) = 1"
  "number_of_wavelets (gwt (instance_of rows_config)) = 1"
  "number_of_wavelets (gwt (instance_of phase_config)) = 1"
  by (simp_all add: fresh_instance number_of_wavelets_def small_config_def both_config_def
      rows_config_def phase_config_def defaults_def)

text \<open>
  The condition on the buffer holds for every instance that \<^verbatim>\<open>__init__\<close> returns, and
  every call keeps it.
\<close>

lemma buffer_ok_init: "init c = Inr s \<Longrightarrow> buffer_ok s"
  by (auto simp: init_def Let_def buffer_ok_def instance_of_def split: sum.splits if_splits)

lemma buffer_ok_call:
  assumes "buffer_ok s"
  shows "buffer_ok (fst (snd (call E s im)))"
proof (cases "ndim (pixels im) = 2 \<and> im_dtype im = Float64")
  case False
  then have "call E s im = (Inl AssertionError, s, [])"
    by (auto simp: call_def call_dense_def)
  with assms show ?thesis by simp
next
  case True
  then have im: "ndim (pixels im) = 2" "im_dtype im = Float64" by simp_all
  have ok: "buffer_ok (s\<lparr> trafo_image := Some (response E (gwt s) im), n_bins := x, n_blocks := y \<rparr>)" for x y
    using im(1) by (simp add: buffer_ok_def response_def ndim_def)
  show ?thesis
  proof (cases "number_of_wavelets (gwt s) = 0")
    case True
    then have "fst (snd (call_dense E s im)) = s\<lparr> trafo_image := Some (response E (gwt s) im) \<rparr>"
      by (simp add: call_dense_valid [OF im assms])
    then show ?thesis
      using im(1) by (simp add: call_state buffer_ok_def response_def ndim_def)
  next
    case False
    then have W: "0 < number_of_wavelets (gwt s)" by simp
    from call_dense_state [OF im assms W, of E] obtain j where
      "fst (snd (call_dense E s im)) =
             s\<lparr> trafo_image := Some (response E (gwt s) im),
                n_bins := Some (n_cols (abs_blocks_of E s im j)),
                n_blocks := Some (n_rows (abs_blocks_of E s im j)) \<rparr>"
      by blast
    then show ?thesis using ok by (simp add: call_state)
  qed
qed

subsection \<open>The layout of the output\<close>

text \<open>
  C2. Let the instance hold \<open>n_bins = nb\<close> and \<open>n_blocks = nB\<close>, let the histograms have
  that many rows and columns, let the array have the shape of the split mode for a jet
  length \<open>J\<close>, and let \<open>j < J\<close>. Then \<^verbatim>\<open>_fill\<close> succeeds, keeps the shape, and writes bin
  \<open>k\<close> of block \<open>b\<close> at: flat position \<open>j*nb*nB + b*nb + k\<close> for split None; row \<open>b\<close>,
  column \<open>j*nb + k\<close> for "blocks"; row \<open>j\<close>, column \<open>b*nb + k\<close> for "wavelets"; row
  \<open>j*nB + b\<close>, column \<open>k\<close> for "both". Everything outside these positions is as before.
\<close>

theorem fill_writes_at_layout_position:
  assumes "n_bins s = Some nb" and "n_blocks s = Some nB"
    and "n_rows bl = nB" and "n_cols bl = nb"
    and "j < J"
    and "layout_shape (split s) nB nb J = Inr (shape a)" and "well_shaped a"
  shows "\<exists>a'. fill s a bl j = Inr a' \<and> shape a' = shape a \<and> well_shaped a'
     \<and> (split s = None \<longrightarrow>
          (\<forall>b<nB. \<forall>k<nb. data a' ! (j * nb * nB + b * nb + k) = cell bl b k)
          \<and> (\<forall>i<nB * nb * J. i < j * nb * nB \<or> (j + 1) * nb * nB \<le> i \<longrightarrow> data a' ! i = data a ! i))
     \<and> (split s = Some ''blocks'' \<longrightarrow>
          (\<forall>b<nB. \<forall>k<nb. np_item2 a' b (j * nb + k) = cell bl b k)
          \<and> (\<forall>r<nB. \<forall>c<nb * J. \<not> (j * nb \<le> c \<and> c < (j + 1) * nb)
                 \<longrightarrow> np_item2 a' r c = np_item2 a r c))
     \<and> (split s = Some ''wavelets'' \<longrightarrow>
          (\<forall>b<nB. \<forall>k<nb. np_item2 a' j (b * nb + k) = cell bl b k)
          \<and> (\<forall>r<J. \<forall>c<nb * nB. r \<noteq> j \<longrightarrow> np_item2 a' r c = np_item2 a r c))
     \<and> (split s = Some ''both'' \<longrightarrow>
          (\<forall>b<nB. \<forall>k<nb. np_item2 a' (j * nB + b) k = cell bl b k)
          \<and> (\<forall>r<J * nB. \<forall>c<nb. \<not> (j * nB \<le> r \<and> r < (j + 1) * nB)
                 \<longrightarrow> np_item2 a' r c = np_item2 a r c))"
  using assms(6)
proof (cases rule: layout_shape_cases)
  case 1
  from fill_flat [OF 1(1) assms(1-4) 1(2) assms(7,5)] 1(1) show ?thesis by auto
next
  case 2
  from fill_blocks [OF 2(1) assms(1-4) 2(2) assms(7,5)] 2(1) show ?thesis by auto
next
  case 3
  from fill_wavelets [OF 3(1) assms(1-4) 3(2) assms(7,5)] 3(1) show ?thesis by auto
next
  case 4
  from fill_both [OF 4(1) assms(1-4) 4(2) assms(7,5)] 4(1) show ?thesis by auto
qed

text \<open>
  The four modes with two blocks of two bins, a jet length of 2 and the pass index 1,
  on arrays of zeros: the last bin of the last block is where the layout puts it, and
  the first cell of the array is untouched.
\<close>

theorem fill_writes_at_layout_position_witness:
  "(\<exists>a'. fill (counted_instance None) (np_ndarray (\<lambda>i. 0) [8]) demo_blocks 1 = Inr a'
         \<and> data a' ! 7 = 12 \<and> data a' ! 0 = 0)
   \<and> (\<exists>a'. fill (counted_instance (Some ''blocks'')) (np_ndarray (\<lambda>i. 0) [2, 4]) demo_blocks 1 = Inr a'
         \<and> np_item2 a' 1 3 = 12 \<and> np_item2 a' 0 0 = 0)
   \<and> (\<exists>a'. fill (counted_instance (Some ''wavelets'')) (np_ndarray (\<lambda>i. 0) [2, 4]) demo_blocks 1 = Inr a'
         \<and> np_item2 a' 1 3 = 12 \<and> np_item2 a' 0 0 = 0)
   \<and> (\<exists>a'. fill (counted_instance (Some ''both'')) (np_ndarray (\<lambda>i. 0) [4, 2]) demo_blocks 1 = Inr a'
         \<and> np_item2 a' 3 1 = 12 \<and> np_item2 a' 0 0 = 0)"
proof -
  have bl: "n_rows demo_blocks = 2" "n_cols demo_blocks = 2" "cell demo_blocks (Suc 0) (Suc 0) = 12"
    by (simp_all add: demo_blocks_def)
  have j: "(1::nat) < 2" by simp
  have cnt: "n_bins (counted_instance sp) = Some 2" "n_blocks (counted_instance sp) = Some 2"
    "split (counted_instance sp) = sp" for sp
    by (simp_all add: counted_instance_def instance_of_def)
  have well_shaped: "well_shaped (np_ndarray (\<lambda>i. 0::real) shp)" for shp by (rule well_shaped_np_ndarray)
  have z2: "np_item2 (np_ndarray (\<lambda>i. 0::real) [r, c]) 0 0 = 0" if "0 < r * c" for r c
    using that by (simp add: np_item2_def np_ndarray_def)
  have flat: "\<exists>a'. fill (counted_instance None) (np_ndarray (\<lambda>i. 0) [8]) demo_blocks 1 = Inr a'
         \<and> data a' ! 7 = 12 \<and> data a' ! 0 = 0"
  proof -
    have lay: "layout_shape (split (counted_instance None)) 2 2 2 = Inr (shape (np_ndarray (\<lambda>i. 0::real) [8]))"
      by (simp add: cnt layout_shape_def np_ndarray_def)
    from fill_writes_at_layout_position [OF cnt(1,2) bl(1,2) j lay well_shaped]
    obtain a' where a: "fill (counted_instance None) (np_ndarray (\<lambda>i. 0) [8]) demo_blocks 1 = Inr a'"
      and c: "split (counted_instance None) = None \<longrightarrow>
          (\<forall>b<2. \<forall>k<2. data a' ! (1 * 2 * 2 + b * 2 + k) = cell demo_blocks b k)
          \<and> (\<forall>i<2 * 2 * 2. i < 1 * 2 * 2 \<or> (1 + 1) * 2 * 2 \<le> i
                \<longrightarrow> data a' ! i = data (np_ndarray (\<lambda>i. 0::real) [8]) ! i)"
      by (elim exE conjE) (rule that; assumption)
    note cs = c [THEN mp, OF cnt(3)]
    from cs [THEN conjunct1, rule_format, of 1 1] cs [THEN conjunct2, rule_format, of 0]
    have "data a' ! 7 = 12" "data a' ! 0 = 0" by (simp_all add: bl np_ndarray_def)
    with a show ?thesis by blast
  qed
  have blocks: "\<exists>a'. fill (counted_instance (Some ''blocks'')) (np_ndarray (\<lambda>i. 0) [2, 4]) demo_blocks 1 = Inr a'
         \<and> np_item2 a' 1 3 = 12 \<and> np_item2 a' 0 0 = 0"
  proof -
    let ?s = "counted_instance (Some ''blocks'')" and ?a = "np_ndarray (\<lambda>i. 0::real) [2, 4]"
    have lay: "layout_shape (split ?s) 2 2 2 = Inr (shape ?a)"
      by (simp add: cnt layout_shape_def np_ndarray_def)
    from fill_writes_at_layout_position [OF cnt(1,2) bl(1,2) j lay well_shaped]
    obtain a' where a: "fill ?s ?a demo_blocks 1 = Inr a'"
      and c: "split ?s = Some ''blocks'' \<longrightarrow>
          (\<forall>b<2. \<forall>k<2. np_item2 a' b (1 * 2 + k) = cell demo_blocks b k)
          \<and> (\<forall>r<2. \<forall>c<2 * 2. \<not> (1 * 2 \<le> c \<and> c < (1 + 1) * 2)
                 \<longrightarrow> np_item2 a' r c = np_item2 ?a r c)"
      by (elim exE conjE) (rule that; assumption)
    note cs = c [THEN mp, OF cnt(3)]
    from cs [THEN conjunct1, rule_format, of 1 1] cs [THEN conjunct2, rule_format, of 0 0]
    have "np_item2 a' 1 3 = 12" "np_item2 a' 0 0 = 0" by (simp_all add: bl z2)
    with a show ?thesis by blast
  qed
  have wavelets: "\<exists>a'. fill (counted_instance (Some ''wavelets'')) (np_ndarray (\<lambda>i. 0) [2, 4]) demo_blocks 1 = Inr a'
         \<and> np_item2 a' 1 3 = 12 \<and> np_item2 a' 0 0 = 0"
  proof -
    let ?s = "counted_instance (Some ''wavelets'')" and ?a = "np_ndarray (\<lambda>i. 0::real) [2, 4]"
    have lay: "layout_shape (split ?s) 2 2 2 = Inr (shape ?a)"
      by (simp add: cnt layout_shape_def np_ndarray_def)
    from fill_writes_at_layout_position [OF cnt(1,2) bl(1,2) j lay well_shaped]
    obtain a' where a: "fill ?s ?a demo_blocks 1 = Inr a'"
      and c: "split ?s = Some ''wavelets'' \<longrightarrow>
          (\<forall>b<2. \<forall>k<2. np_item2 a' 1 (b * 2 + k) = cell demo_blocks b k)
          \<and> (\<forall>r<2. \<forall>c<2 * 2. r \<noteq> 1 \<longrightarrow> np_item2 a' r c = np_item2 ?a r c)"
      by (elim exE conjE) (rule that; assumption)
    note cs = c [THEN mp, OF cnt(3)]
    from cs [THEN conjunct1, rule_format, of 1 1] cs [THEN conjunct2, rule_format, of 0 0]
    have "np_item2 a' 1 3 = 12" "np_item2 a' 0 0 = 0" by (simp_all add: bl z2)
    with a show ?thesis by blast
  qed
  have both: "\<exists>a'. fill (counted_instance (Some ''both'')) (np_ndarray (\<lambda>i. 0) [4, 2]) demo_blocks 1 = Inr a'
         \<and> np_item2 a' 3 1 = 12 \<and> np_item2 a' 0 0 = 0"
  proof -
    let ?s = "counted_instance (Some ''both'')" and ?a = "np_ndarray (\<lambda>i. 0::real) [4, 2]"
    have lay: "layout_shape (split ?s) 2 2 2 = Inr (shape ?a)"
      by (simp add: cnt layout_shape_def np_ndarray_def)
    from fill_writes_at_layout_position [OF cnt(1,2) bl(1,2) j lay well_shaped]
    obtain a' where a: "fill ?s ?a demo_blocks 1 = Inr a'"
      and c: "split ?s = Some ''both'' \<longrightarrow>
          (\<forall>b<2. \<forall>k<2. np_item2 a' (1 * 2 + b) k = cell demo_blocks b k)
          \<and> (\<forall>r<2 * 2. \<forall>c<2. \<not> (1 * 2 \<le> r \<and> r < (1 + 1) * 2)
                 \<longrightarrow> np_item2 a' r c = np_item2 ?a r c)"
      by (elim exE conjE) (rule that; assumption)
    note cs = c [THEN mp, OF cnt(3)]
    from cs [THEN conjunct1, rule_format, of 1 1] cs [THEN conjunct2, rule_format, of 0 0]
    have "np_item2 a' 3 1 = 12" "np_item2 a' 0 0 = 0" by (simp_all add: bl z2)
    with a show ?thesis by blast
  qed
  from flat blocks wavelets both show ?thesis by (intro conjI)
qed

text \<open>
  C3. For a 2-D image of float64, at least one wavelet and histograms that all have
  \<open>nB\<close> blocks of \<open>nb\<close> bins: with one of the four split modes the call builds an array
  of shape \<open>(nB*nb*J)\<close> for None, \<open>(nB, nb*J)\<close> for "blocks", \<open>(J, nb*nB)\<close> for
  "wavelets" and \<open>(J*nB, nb)\<close> for "both", where \<open>J\<close> is the jet length, and returns it
  unless sparse is set; with any other split the call raises ValueError.
\<close>

theorem output_shape_law:
  assumes im: "ndim (pixels im) = 2" "im_dtype im = Float64" and buf: "buffer_ok s"
    and W: "0 < number_of_wavelets (gwt s)"
    and agree: "\<forall>j < number_of_wavelets (gwt s).
        n_rows (abs_blocks_of E s im j) = nB \<and> n_cols (abs_blocks_of E s im j) = nb
        \<and> (use_phases s \<longrightarrow>
             n_rows (phase_blocks_of E s im j) = nB \<and> n_cols (phase_blocks_of E s im j) = nb)"
  shows "(split s \<in> {None, Some ''blocks'', Some ''wavelets'', Some ''both''} \<longrightarrow>
           (\<exists>a. fst (call_dense E s im) = Inr (Some a)
               \<and> (\<not> sparse s \<longrightarrow> fst (call E s im) = Inr (Some a))
               \<and> shape a =
                   (if split s = None then [nB * nb * jet_length s]
                    else if split s = Some ''blocks'' then [nB, nb * jet_length s]
                    else if split s = Some ''wavelets'' then [jet_length s, nb * nB]
                    else [jet_length s * nB, nb])))
       \<and> (split s \<notin> {None, Some ''blocks'', Some ''wavelets'', Some ''both''} \<longrightarrow>
            fst (call E s im) = Inl ValueError)"
proof (intro conjI impI)
  assume sp: "split s \<in> {None, Some ''blocks'', Some ''wavelets'', Some ''both''}"
  let ?shp = "if split s = None then [nB * nb * jet_length s]
                    else if split s = Some ''blocks'' then [nB, nb * jet_length s]
                    else if split s = Some ''wavelets'' then [jet_length s, nb * nB]
                    else [jet_length s * nB, nb]"
  let ?s' = "s\<lparr> trafo_image := Some (response E (gwt s) im), n_bins := Some nb, n_blocks := Some nB \<rparr>"
  from call_dense_agreeing [OF im buf W agree layout_shape_valid [OF sp]]
  obtain a where a: "call_dense E s im =
            (Inr (Some a), ?s', concat (map (fills_of s) [0..<number_of_wavelets (gwt s)]))"
    and sh: "shape a = ?shp"
    by (elim exE conjE) (rule that; assumption)
  have "fst (call E s im) = Inr (Some a)" if "\<not> sparse s"
    using call_not_sparse [OF a] that by simp
  with a sh show "\<exists>a. fst (call_dense E s im) = Inr (Some a)
               \<and> (\<not> sparse s \<longrightarrow> fst (call E s im) = Inr (Some a))
               \<and> shape a = ?shp"
    by (intro exI [of _ a] conjI impI) simp_all
next
  assume sp: "split s \<notin> {None, Some ''blocks'', Some ''wavelets'', Some ''both''}"
  have d: "fst (call_dense E s im) = Inl ValueError"
    using call_invalid_split [OF im buf W sp, of E] by simp
  show "fst (call E s im) = Inl ValueError"
    using call_error [OF d] d by simp
qed

text \<open>The split "both" with one wavelet and two blocks of two bins, and the split "rows".\<close>

theorem output_shape_law_witness:
  "(\<exists>a. fst (call_dense agreeing_env (instance_of both_config) unit_image) = Inr (Some a)
        \<and> fst (call agreeing_env (instance_of both_config) unit_image) = Inr (Some a)
        \<and> shape a = [2, 2])
   \<and> fst (call agreeing_env (instance_of rows_config) unit_image) = Inl ValueError"
proof -
  have W: "0 < number_of_wavelets (gwt (instance_of c))"
    if "number_of_wavelets (gwt (instance_of c)) = 1" for c
    using that by simp
  have agree: "\<forall>j < number_of_wavelets (gwt s).
        n_rows (abs_blocks_of agreeing_env s unit_image j) = 2
        \<and> n_cols (abs_blocks_of agreeing_env s unit_image j) = 2
        \<and> (use_phases s \<longrightarrow>
             n_rows (phase_blocks_of agreeing_env s unit_image j) = 2
             \<and> n_cols (phase_blocks_of agreeing_env s unit_image j) = 2)" for s
    by (simp add: agreeing_env_counts)
  have b: "split (instance_of both_config) = Some ''both''" "\<not> sparse (instance_of both_config)"
    "jet_length (instance_of both_config) = 1"
    by (simp_all add: fresh_instance both_config_def small_config_def defaults_def jet_length_def
        number_of_wavelets_def)
  have r: "split (instance_of rows_config) = Some ''rows''"
    by (simp add: fresh_instance rows_config_def)
  from output_shape_law [OF unit_image_valid fresh_instance(1) W [OF one_wavelet(2)] agree]
    output_shape_law [OF unit_image_valid fresh_instance(1) W [OF one_wavelet(3)] agree]
  show ?thesis
    by (simp add: b r)
qed

subsection \<open>Magnitudes and phases\<close>

text \<open>
  C4. The jet length is scales times directions, doubled when phases are used. With
  phases and split None (under the conditions of C3), the loop calls \<^verbatim>\<open>_fill\<close> for the
  magnitude plane of wavelet \<open>j\<close> at pass index \<open>j\<close> and directly after for its phase
  plane at pass index \<open>j\<close> plus the number of wavelets, for \<open>j = 0, 1, ...\<close> in turn; in
  the output the first half holds the histograms of the magnitude planes and the second
  half those of the phase planes (\<open>np_angle\<close>, that is \<open>Arg\<close>, of the responses).
\<close>

theorem phase_toggle:
  "jet_length s = number_of_scales (gwt s) * number_of_directions (gwt s) * (if use_phases s then 2 else 1)
   \<and> (\<not> use_phases s \<longrightarrow> jet_length s = number_of_wavelets (gwt s))
   \<and> (use_phases s \<longrightarrow> jet_length s = 2 * number_of_wavelets (gwt s))
   \<and> (ndim (pixels im) = 2 \<and> im_dtype im = Float64 \<and> buffer_ok s
        \<and> 0 < number_of_wavelets (gwt s)
        \<and> (\<forall>j < number_of_wavelets (gwt s).
              n_rows (abs_blocks_of E s im j) = nB \<and> n_cols (abs_blocks_of E s im j) = nb
              \<and> n_rows (phase_blocks_of E s im j) = nB \<and> n_cols (phase_blocks_of E s im j) = nb)
        \<and> use_phases s \<and> split s = None
      \<longrightarrow> (\<exists>a s'. call_dense E s im =
                 (Inr (Some a), s',
                  concat (map (\<lambda>j. [FillAbs j, FillPhase (j + number_of_wavelets (gwt s))])
                            [0..<number_of_wavelets (gwt s)]))
              \<and> (\<not> sparse s \<longrightarrow> fst (call E s im) = Inr (Some a))
              \<and> shape a = [nB * nb * (2 * number_of_wavelets (gwt s))]
              \<and> (\<forall>j<number_of_wavelets (gwt s). \<forall>b<nB. \<forall>k<nb.
                    data a ! (j * nb * nB + b * nb + k) = cell (abs_blocks_of E s im j) b k
                    \<and> data a ! ((j + number_of_wavelets (gwt s)) * nb * nB + b * nb + k)
                        = cell (phase_blocks_of E s im j) b k)))"
proof (intro conjI impI)
  show "jet_length s = number_of_scales (gwt s) * number_of_directions (gwt s) * (if use_phases s then 2 else 1)"
    by (simp add: jet_length_def number_of_wavelets_def)
  show "\<not> use_phases s \<Longrightarrow> jet_length s = number_of_wavelets (gwt s)"
    by (simp add: jet_length_def)
  show "use_phases s \<Longrightarrow> jet_length s = 2 * number_of_wavelets (gwt s)"
    by (simp add: jet_length_def)
next
  let ?W = "number_of_wavelets (gwt s)"
  assume h: "ndim (pixels im) = 2 \<and> im_dtype im = Float64 \<and> buffer_ok s
        \<and> 0 < ?W
        \<and> (\<forall>j < ?W.
              n_rows (abs_blocks_of E s im j) = nB \<and> n_cols (abs_blocks_of E s im j) = nb
              \<and> n_rows (phase_blocks_of E s im j) = nB \<and> n_cols (phase_blocks_of E s im j) = nb)
        \<and> use_phases s \<and> split s = None"
  then have im: "ndim (pixels im) = 2" "im_dtype im = Float64" and buf: "buffer_ok s"
    and W: "0 < ?W" and ph: "use_phases s" and sp: "split s = None"
    by blast+
  from h have agree: "\<forall>j < ?W.
        n_rows (abs_blocks_of E s im j) = nB \<and> n_cols (abs_blocks_of E s im j) = nb
        \<and> (use_phases s \<longrightarrow>
             n_rows (phase_blocks_of E s im j) = nB \<and> n_cols (phase_blocks_of E s im j) = nb)"
    by blast
  have lay: "layout_shape (split s) nB nb (jet_length s) = Inr [nB * nb * (2 * ?W)]"
    using sp ph by (simp add: layout_shape_def jet_length_def mult.commute)
  have "fills_of s = (\<lambda>j. [FillAbs j, FillPhase (j + ?W)])"
    using ph by (intro ext) (simp add: fills_of_def)
  then have tr: "map (fills_of s) = map (\<lambda>j. [FillAbs j, FillPhase (j + ?W)])"
    by simp
  let ?s' = "s\<lparr> trafo_image := Some (response E (gwt s) im), n_bins := Some nb, n_blocks := Some nB \<rparr>"
  from call_dense_agreeing [OF im buf W agree lay]
  obtain a where a: "call_dense E s im = (Inr (Some a), ?s', concat (map (fills_of s) [0..<?W]))"
    and sh: "shape a = [nB * nb * (2 * ?W)]"
    and c: "split s = None \<longrightarrow>
             (\<forall>j<?W. \<forall>b<nB. \<forall>k<nb.
                data a ! (j * nb * nB + b * nb + k) = cell (abs_blocks_of E s im j) b k
                \<and> (use_phases s \<longrightarrow>
                     data a ! ((j + ?W) * nb * nB + b * nb + k) = cell (phase_blocks_of E s im j) b k))"
    by (elim exE conjE) (rule that; assumption)
  have cells: "data a ! (j * nb * nB + b * nb + k) = cell (abs_blocks_of E s im j) b k
                    \<and> data a ! ((j + ?W) * nb * nB + b * nb + k) = cell (phase_blocks_of E s im j) b k"
    if "j < ?W" "b < nB" "k < nb" for j b k
    using c [THEN mp, OF sp, rule_format, OF that] ph by simp
  have ns: "fst (call E s im) = Inr (Some a)" if "\<not> sparse s"
    using call_not_sparse [OF a] that by simp
  show "\<exists>a s'. call_dense E s im =
                 (Inr (Some a), s', concat (map (\<lambda>j. [FillAbs j, FillPhase (j + ?W)]) [0..<?W]))
              \<and> (\<not> sparse s \<longrightarrow> fst (call E s im) = Inr (Some a))
              \<and> shape a = [nB * nb * (2 * ?W)]
              \<and> (\<forall>j<?W. \<forall>b<nB. \<forall>k<nb.
                    data a ! (j * nb * nB + b * nb + k) = cell (abs_blocks_of E s im j) b k
                    \<and> data a ! ((j + ?W) * nb * nB + b * nb + k)
                        = cell (phase_blocks_of E s im j) b k)"
  proof (intro exI [of _ a] exI [of _ ?s'] conjI impI allI)
    show "call_dense E s im =
                 (Inr (Some a), ?s', concat (map (\<lambda>j. [FillAbs j, FillPhase (j + ?W)]) [0..<?W]))"
      using a unfolding tr .
    show "fst (call E s im) = Inr (Some a)" if "\<not> sparse s" using ns that .
    show "shape a = [nB * nb * (2 * ?W)]" by (rule sh)
    show "data a ! (j * nb * nB + b * nb + k) = cell (abs_blocks_of E s im j) b k"
      if "j < ?W" "b < nB" "k < nb" for j b k
      using cells [OF that] by blast
    show "data a ! ((j + ?W) * nb * nB + b * nb + k) = cell (phase_blocks_of E s im j) b k"
      if "j < ?W" "b < nB" "k < nb" for j b k
      using cells [OF that] by blast
  qed
qed

text \<open>
  One wavelet with phases: the magnitude is 1 and the phase is \<open>pi / 2\<close>, and the last
  bin of the last block, 11 above the first, is found at 3 for the magnitude and at 7
  for the phase.
\<close>

theorem phase_toggle_witness:
  "jet_length (instance_of phase_config) = 2
   \<and> (\<exists>a s'. call_dense agreeing_env (instance_of phase_config) unit_image
                = (Inr (Some a), s', [FillAbs 0, FillPhase 1])
        \<and> fst (call agreeing_env (instance_of phase_config) unit_image) = Inr (Some a)
        \<and> shape a = [8]
        \<and> data a ! 3 = 12 \<and> data a ! 7 = pi / 2 + 11)"
proof -
  let ?s = "instance_of phase_config"
  have p: "use_phases ?s" "split ?s = None" "\<not> sparse ?s"
    by (simp_all add: fresh_instance phase_config_def small_config_def defaults_def)
  have h: "ndim (pixels unit_image) = 2 \<and> im_dtype unit_image = Float64 \<and> buffer_ok ?s
        \<and> 0 < number_of_wavelets (gwt ?s)
        \<and> (\<forall>j < number_of_wavelets (gwt ?s).
              n_rows (abs_blocks_of agreeing_env ?s unit_image j) = 2
              \<and> n_cols (abs_blocks_of agreeing_env ?s unit_image j) = 2
              \<and> n_rows (phase_blocks_of agreeing_env ?s unit_image j) = 2
              \<and> n_cols (phase_blocks_of agreeing_env ?s unit_image j) = 2)
        \<and> use_phases ?s \<and> split ?s = None"
    by (simp add: unit_image_valid fresh_instance(1) one_wavelet agreeing_env_counts p)
  note T = phase_toggle [of ?s unit_image agreeing_env 2 2]
  from T [THEN conjunct2, THEN conjunct2, THEN conjunct1, THEN mp, OF p(1)]
  have jl: "jet_length ?s = 2" by (simp add: one_wavelet)
  from T [THEN conjunct2, THEN conjunct2, THEN conjunct2, THEN mp, OF h]
  obtain a s' where a: "call_dense agreeing_env ?s unit_image =
                 (Inr (Some a), s',
                  concat (map (\<lambda>j. [FillAbs j, FillPhase (j + number_of_wavelets (gwt ?s))])
                            [0..<number_of_wavelets (gwt ?s)]))"
    and c: "\<not> sparse ?s \<longrightarrow> fst (call agreeing_env ?s unit_image) = Inr (Some a)"
    and sh: "shape a = [2 * 2 * (2 * number_of_wavelets (gwt ?s))]"
    and cells: "\<forall>j<number_of_wavelets (gwt ?s). \<forall>b<2. \<forall>k<2.
                    data a ! (j * 2 * 2 + b * 2 + k) = cell (abs_blocks_of agreeing_env ?s unit_image j) b k
                    \<and> data a ! ((j + number_of_wavelets (gwt ?s)) * 2 * 2 + b * 2 + k)
                        = cell (phase_blocks_of agreeing_env ?s unit_image j) b k"
    by (elim exE conjE) (rule that; assumption)
  have plane: "data (response_plane agreeing_env (gwt ?s) unit_image 0) = [\<i>]"
    by (simp add: response_plane_def response_def one_wavelet) (simp add: unit_image_def agreeing_env_def)
  have lb: "cell (lbphs agreeing_env p l bs bo) b k = hd (data p) + real (10 * b + k)" for p l bs bo b k
    by (simp add: agreeing_env_def)
  have m: "cell (abs_blocks_of agreeing_env ?s unit_image 0) (Suc 0) (Suc 0) = 12"
    by (simp add: abs_blocks_of_def lb np_abs_def plane)
  have ph: "cell (phase_blocks_of agreeing_env ?s unit_image 0) (Suc 0) (Suc 0) = pi / 2 + 11"
    by (simp add: phase_blocks_of_def lb np_angle_def plane)
  from cells [rule_format, of 0 1 1] have "data a ! 3 = 12" "data a ! 7 = pi / 2 + 11"
    by (simp_all add: one_wavelet m ph eval_nat_numeral)
  moreover from a have "call_dense agreeing_env ?s unit_image = (Inr (Some a), s', [FillAbs 0, FillPhase 1])"
    by (simp add: one_wavelet)
  moreover from c p have "fst (call agreeing_env ?s unit_image) = Inr (Some a)" by simp
  moreover from sh have "shape a = [8]" by (simp add: one_wavelet)
  ultimately show ?thesis using jl by blast
qed

subsection \<open>Counts that disagree\<close>

text \<open>
  C1, as amended. Agreement of the counts is assumed, not enforced. For a 2-D image of
  float64, at least one wavelet and a buffer that is None or left by an earlier call:
  when all histograms of the call, of the magnitude planes and (if phases are used) of
  the phase planes, have \<open>nB\<close> blocks of \<open>nb\<close> bins, the split is one of None, "blocks",
  "wavelets", "both", and the split is None if sparse is set, then the call raises
  nothing, returns an output and leaves \<open>nb\<close> and \<open>nB\<close> in \<^verbatim>\<open>n_bins\<close> and \<^verbatim>\<open>n_blocks\<close>.
  Whatever the planes are like, a call that returns leaves there the counts of the last
  magnitude plane.
\<close>

theorem counts_agreement_is_assumed:
  assumes im: "ndim (pixels im) = 2" "im_dtype im = Float64" and buf: "buffer_ok s"
    and W: "0 < number_of_wavelets (gwt s)"
  shows "((\<forall>j < number_of_wavelets (gwt s).
            n_rows (abs_blocks_of E s im j) = nB \<and> n_cols (abs_blocks_of E s im j) = nb
            \<and> (use_phases s \<longrightarrow>
                 n_rows (phase_blocks_of E s im j) = nB \<and> n_cols (phase_blocks_of E s im j) = nb))
          \<and> split s \<in> {None, Some ''blocks'', Some ''wavelets'', Some ''both''}
          \<and> (sparse s \<longrightarrow> split s = None)
          \<longrightarrow> (\<exists>r. call E s im =
                 (Inr (Some r),
                  s\<lparr> trafo_image := Some (response E (gwt s) im),
                     n_bins := Some nb, n_blocks := Some nB \<rparr>,
                  concat (map (fills_of s) [0..<number_of_wavelets (gwt s)]))))
       \<and> ((\<exists>r. fst (call E s im) = Inr r) \<longrightarrow>
            fst (snd (call E s im)) =
              s\<lparr> trafo_image := Some (response E (gwt s) im),
                 n_bins := Some (n_cols (abs_blocks_of E s im (number_of_wavelets (gwt s) - 1))),
                 n_blocks := Some (n_rows (abs_blocks_of E s im (number_of_wavelets (gwt s) - 1))) \<rparr>)"
proof (intro conjI impI)
  assume h: "(\<forall>j < number_of_wavelets (gwt s).
            n_rows (abs_blocks_of E s im j) = nB \<and> n_cols (abs_blocks_of E s im j) = nb
            \<and> (use_phases s \<longrightarrow>
                 n_rows (phase_blocks_of E s im j) = nB \<and> n_cols (phase_blocks_of E s im j) = nb))
          \<and> split s \<in> {None, Some ''blocks'', Some ''wavelets'', Some ''both''}
          \<and> (sparse s \<longrightarrow> split s = None)"
  let ?s' = "s\<lparr> trafo_image := Some (response E (gwt s) im), n_bins := Some nb, n_blocks := Some nB \<rparr>"
  let ?tr = "concat (map (fills_of s) [0..<number_of_wavelets (gwt s)])"
  from h have agree: "\<forall>j < number_of_wavelets (gwt s).
            n_rows (abs_blocks_of E s im j) = nB \<and> n_cols (abs_blocks_of E s im j) = nb
            \<and> (use_phases s \<longrightarrow>
                 n_rows (phase_blocks_of E s im j) = nB \<and> n_cols (phase_blocks_of E s im j) = nb)"
    and sp: "split s \<in> {None, Some ''blocks'', Some ''wavelets'', Some ''both''}"
    and ss: "sparse s \<longrightarrow> split s = None"
    by blast+
  from call_dense_agreeing [OF im buf W agree layout_shape_valid [OF sp]]
  obtain a where a: "call_dense E s im = (Inr (Some a), ?s', ?tr)"
    and sh: "shape a = (if split s = None then [nB * nb * jet_length s]
            else if split s = Some ''blocks'' then [nB, nb * jet_length s]
            else if split s = Some ''wavelets'' then [jet_length s, nb * nB]
            else [jet_length s * nB, nb])"
    by (elim exE conjE) (rule that; assumption)
  show "\<exists>r. call E s im = (Inr (Some r), ?s', ?tr)"
  proof (cases "sparse s")
    case False
    then have "call E s im = (Inr (Some a), ?s', ?tr)"
      using call_not_sparse [OF a] by simp
    then show ?thesis by blast
  next
    case True
    with ss sh have "length (shape a) = 1" by simp
    from sparsify_accepts_flat [OF this, of ?s'] obtain y where "sparsify ?s' a = Inr y" by blast
    then have "call E s im = (Inr (Some y), ?s', ?tr)"
      using a by (simp add: call_def sparsify_opt_def)
    then show ?thesis by blast
  qed
next
  assume "\<exists>r. fst (call E s im) = Inr r"
  then have "\<exists>r. fst (call_dense E s im) = Inr r"
    by (cases "call_dense E s im"; cases "fst (call_dense E s im)") (auto simp: call_def)
  with call_dense_state [OF im buf W, of E]
  show "fst (snd (call E s im)) =
              s\<lparr> trafo_image := Some (response E (gwt s) im),
                 n_bins := Some (n_cols (abs_blocks_of E s im (number_of_wavelets (gwt s) - 1))),
                 n_blocks := Some (n_rows (abs_blocks_of E s im (number_of_wavelets (gwt s) - 1))) \<rparr>"
    unfolding call_state by blast
qed

text \<open>One wavelet and two blocks of two bins.\<close>

theorem counts_agreement_is_assumed_witness:
  "(\<exists>r. call agreeing_env (instance_of small_config) unit_image
           = (Inr (Some r),
              (instance_of small_config)\<lparr> trafo_image := Some (NDArray [1, 1, 1] [\<i>]),
                                           n_bins := Some 2, n_blocks := Some 2 \<rparr>,
              [FillAbs 0]))"
proof -
  have W: "0 < number_of_wavelets (gwt (instance_of small_config))" by (simp add: one_wavelet)
  have s: "split (instance_of small_config) = None" "\<not> sparse (instance_of small_config)"
    "\<not> use_phases (instance_of small_config)"
    by (simp_all add: fresh_instance small_config_def defaults_def)
  have resp: "response agreeing_env (gwt (instance_of small_config)) unit_image = NDArray [1, 1, 1] [\<i>]"
    by (simp add: response_def one_wavelet) (simp add: unit_image_def agreeing_env_def)
  from counts_agreement_is_assumed [OF unit_image_valid fresh_instance(1) W, of agreeing_env 2 2]
  show ?thesis
    by (simp add: s resp agreeing_env_counts one_wavelet fills_of_def)
qed

text \<open>
  C1 as stated fails: with two blocks in the plane of wavelet 0 and one block in the
  plane of wavelet 1 the call returns an array, sized for the first plane, in which the
  second plane has overwritten the second block of the first and two cells are what
  the memory held.
\<close>

theorem disagreeing_counts_pass_silently:
  "n_rows (abs_blocks_of disagreeing_env (instance_of two_wavelets_config) unit_image 0) = 2
   \<and> n_rows (abs_blocks_of disagreeing_env (instance_of two_wavelets_config) unit_image 1) = 1
   \<and> fst (call disagreeing_env (instance_of two_wavelets_config) unit_image)
       = Inr (Some (NDArray [4] [7, 9, - 1, - 1]))"
  by (simp add: abs_blocks_of_def response_plane_def response_def fixture_defs eval_defs)

subsection \<open>The instance after an error\<close>

text \<open>
  C10. For a 2-D image of float64 and at least one wavelet, a call that raises leaves
  the instance with the buffer holding the transform of this image and with
  \<^verbatim>\<open>n_bins\<close> and \<^verbatim>\<open>n_blocks\<close> set from the magnitude plane it reached; in particular
  an unknown split raises ValueError in the first pass, after the counts of plane 0
  have been stored.
\<close>

theorem error_leaves_mutated_state:
  assumes im: "ndim (pixels im) = 2" "im_dtype im = Float64" and buf: "buffer_ok s"
    and W: "0 < number_of_wavelets (gwt s)"
  shows "(split s \<notin> {None, Some ''blocks'', Some ''wavelets'', Some ''both''} \<longrightarrow>
           call E s im =
             (Inl ValueError,
              s\<lparr> trafo_image := Some (response E (gwt s) im),
                 n_bins := Some (n_cols (abs_blocks_of E s im 0)),
                 n_blocks := Some (n_rows (abs_blocks_of E s im 0)) \<rparr>, []))
       \<and> ((\<exists>e. fst (call E s im) = Inl e) \<longrightarrow>
            (\<exists>j<number_of_wavelets (gwt s).
               fst (snd (call E s im)) =
                 s\<lparr> trafo_image := Some (response E (gwt s) im),
                    n_bins := Some (n_cols (abs_blocks_of E s im j)),
                    n_blocks := Some (n_rows (abs_blocks_of E s im j)) \<rparr>))"
proof (intro conjI impI)
  assume sp: "split s \<notin> {None, Some ''blocks'', Some ''wavelets'', Some ''both''}"
  note d = call_invalid_split [OF im buf W sp, of E]
  from d have "fst (call_dense E s im) = Inl ValueError" by simp
  from call_error [OF this] d show "call E s im =
             (Inl ValueError,
              s\<lparr> trafo_image := Some (response E (gwt s) im),
                 n_bins := Some (n_cols (abs_blocks_of E s im 0)),
                 n_blocks := Some (n_rows (abs_blocks_of E s im 0)) \<rparr>, [])"
    by simp
next
  from call_dense_state [OF im buf W, of E]
  show "\<exists>j<number_of_wavelets (gwt s).
               fst (snd (call E s im)) =
                 s\<lparr> trafo_image := Some (response E (gwt s) im),
                    n_bins := Some (n_cols (abs_blocks_of E s im j)),
                    n_blocks := Some (n_rows (abs_blocks_of E s im j)) \<rparr>"
    unfolding call_state by blast
qed

text \<open>
  A fresh instance with the split "rows": before the call it has no buffer and no
  counts, after the failed call it has both.
\<close>

theorem error_leaves_mutated_state_witness:
  "call agreeing_env (instance_of rows_config) unit_image
     = (Inl ValueError,
        (instance_of rows_config)\<lparr> trafo_image := Some (NDArray [1, 1, 1] [\<i>]),
                                    n_bins := Some 2, n_blocks := Some 2 \<rparr>, [])
   \<and> trafo_image (instance_of rows_config) = None
   \<and> n_bins (instance_of rows_config) = None"
proof -
  have W: "0 < number_of_wavelets (gwt (instance_of rows_config))" by (simp add: one_wavelet)
  have r: "split (instance_of rows_config) = Some ''rows''"
    by (simp add: fresh_instance rows_config_def)
  have resp: "response agreeing_env (gwt (instance_of rows_config)) unit_image = NDArray [1, 1, 1] [\<i>]"
    by (simp add: response_def one_wavelet) (simp add: unit_image_def agreeing_env_def)
  from error_leaves_mutated_state [OF unit_image_valid fresh_instance(1) W, of agreeing_env]
  show ?thesis
    by (simp add: r resp agreeing_env_counts) (simp add: instance_of_def)
qed

end
